theory Spec2Isabelle
  imports Complex_Main "HOL-Library.Word"
begin

section \<open>Capacitor minting (class CapacitorMint)\<close>

text \<open>
  JavaScript numbers are modelled as \<open>real\<close> (no rounding, no NaN, no infinities).
  The clock is a parameter: every method that reads \<open>new Date()\<close> takes the instant
  \<open>now\<close> in milliseconds since the epoch; the ISO string the source stores is kept as
  that instant, which is what \<open>new Date(a.timestamp).getTime()\<close> reads back.
\<close>

record activity =
  act_type :: string
  intensity :: real
  charge_added :: real
  act_timestamp :: int
  total_charge :: real

record CapacitorMint =
  charge :: real
  maxCharge :: real
  threshold :: real
  chargeRate :: real
  dischargeRate :: real
  activityLog :: "activity list"
  lastMintTime :: "int option"

text \<open>
  The constructor. Its argument is \<open>config.capacitor_physics?.threshold\<close>: \<open>None\<close>
  when absent; \<open>||\<close> also replaces the falsy number 0 by the default 100.
\<close>

definition new_CapacitorMint :: "real option \<Rightarrow> CapacitorMint" where
  "new_CapacitorMint cfg_threshold =
     \<lparr> charge = 0,
       maxCharge = 100,
       threshold = (case cfg_threshold of
                      None \<Rightarrow> 100
                    | Some t \<Rightarrow> if t = 0 then 100 else t),
       chargeRate = 1,
       dischargeRate = 20,
       activityLog = [],
       lastMintTime = None \<rparr>"

definition canMint :: "CapacitorMint \<Rightarrow> bool" where
  "canMint s = (charge s \<ge> threshold s)"

text \<open>\<open>Array.prototype.slice(-n)\<close>: the last \<open>n\<close> elements (all of them when fewer).\<close>

definition slice_last :: "nat \<Rightarrow> 'a list \<Rightarrow> 'a list" where
  "slice_last n xs = drop (length xs - n) xs"

text \<open>The default arguments (intensity 1, decay rate 0.1) are left to the caller.\<close>

definition registerActivity ::
  "int \<Rightarrow> string \<Rightarrow> real \<Rightarrow> CapacitorMint \<Rightarrow> (real \<times> bool) \<times> CapacitorMint" where
  "registerActivity now activityType intens s =
     (let chargeAmount = intens * chargeRate s;
          c = min (maxCharge s) (charge s + chargeAmount);
          log1 = activityLog s @
                 [\<lparr> act_type = activityType, intensity = intens,
                    charge_added = chargeAmount, act_timestamp = now,
                    total_charge = c \<rparr>];
          log2 = (if length log1 > 100 then slice_last 100 log1 else log1);
          s' = s\<lparr> charge := c, activityLog := log2 \<rparr>
      in ((charge s', canMint s'), s'))"

datatype mint_attempt =
    Rejected string real real real  \<comment> \<open>error, charge, threshold, needed\<close>
  | Minted real int                 \<comment> \<open>charge, timestamp\<close>

fun success :: "mint_attempt \<Rightarrow> bool" where
  "success (Rejected _ _ _ _) = False"
| "success (Minted _ _) = True"

definition attemptMint :: "int \<Rightarrow> CapacitorMint \<Rightarrow> mint_attempt \<times> CapacitorMint" where
  "attemptMint now s =
     (if \<not> canMint s then
        (Rejected ''Insufficient capacitor charge'' (charge s) (threshold s)
           (threshold s - charge s), s)
      else
        (let s' = s\<lparr> charge := max 0 (charge s - dischargeRate s),
                     lastMintTime := Some now \<rparr>
         in (Minted (charge s') now, s')))"

definition applyDecay :: "real \<Rightarrow> CapacitorMint \<Rightarrow> CapacitorMint" where
  "applyDecay decayRate s = s\<lparr> charge := max 0 (charge s - decayRate) \<rparr>"

definition boost :: "real \<Rightarrow> CapacitorMint \<Rightarrow> (bool \<times> real \<times> real) \<times> CapacitorMint" where
  "boost amount s =
     (let s' = s\<lparr> charge := min (maxCharge s) (charge s + amount) \<rparr>
      in ((True, amount, charge s'), s'))"

record abuse_report =
  abuse_detected :: bool
  pattern :: "string option"
  action :: "string option"
  cooldown :: "nat option"
  suggestion :: "string option"

definition no_abuse :: abuse_report where
  "no_abuse = \<lparr> abuse_detected = False, pattern = None, action = None,
                cooldown = None, suggestion = None \<rparr>"

definition rapid_fire :: abuse_report where
  "rapid_fire = \<lparr> abuse_detected = True, pattern = Some ''rapid_fire'',
                  action = Some ''throttle'', cooldown = Some 5000, suggestion = None \<rparr>"

definition repetitive :: abuse_report where
  "repetitive = \<lparr> abuse_detected = True, pattern = Some ''repetitive'',
                  action = Some ''require_variety'', cooldown = None,
                  suggestion = Some ''Vary activity types'' \<rparr>"

definition detectAbuse :: "CapacitorMint \<Rightarrow> abuse_report" where
  "detectAbuse s =
     (if length (activityLog s) < 10 then no_abuse
      else
        (let recentActivities = slice_last 10 (activityLog s);
             timestamps = map act_timestamp recentActivities;
             timeSpan = last timestamps - hd timestamps
         in if timeSpan < 1000 then rapid_fire
            else
              (let types = map act_type recentActivities;
                   allSame = list_all (\<lambda>t. t = hd types) types
               in if allSame \<and> length types > 8 then repetitive
                  else no_abuse)))"

text \<open>A call of one of the four methods that write \<open>charge\<close>, with the instant it runs at.\<close>

datatype call =
    RegisterActivity string real
  | AttemptMint
  | ApplyDecay real
  | Boost real

fun exec :: "CapacitorMint \<Rightarrow> int \<times> call \<Rightarrow> CapacitorMint" where
  "exec s (now, RegisterActivity ty i) = snd (registerActivity now ty i s)"
| "exec s (now, AttemptMint) = snd (attemptMint now s)"
| "exec s (now, ApplyDecay r) = applyDecay r s"
| "exec s (now, Boost a) = snd (boost a s)"

definition run :: "CapacitorMint \<Rightarrow> (int \<times> call) list \<Rightarrow> CapacitorMint" where
  "run s calls = foldl exec s calls"

fun nonneg_arg :: "call \<Rightarrow> bool" where
  "nonneg_arg (RegisterActivity _ i) = (0 \<le> i)"
| "nonneg_arg AttemptMint = True"
| "nonneg_arg (ApplyDecay r) = (0 \<le> r)"
| "nonneg_arg (Boost a) = (0 \<le> a)"

definition charge_inv :: "CapacitorMint \<Rightarrow> bool" where
  "charge_inv s = (0 \<le> charge s \<and> charge s \<le> maxCharge s)"

text \<open>The constants the constructor sets and no method writes.\<close>

definition consts_ok :: "CapacitorMint \<Rightarrow> bool" where
  "consts_ok s = (maxCharge s = 100 \<and> chargeRate s = 1 \<and> dischargeRate s = 20)"

section \<open>Immutable ledger (class ImmutableLedger)\<close>

text \<open>
  Strings are \<open>string\<close>; \<open>charCodeAt\<close> is the code of the character. Token values are
  integers, printed in decimal as a template literal prints an integer of magnitude below
  \<open>10^21\<close>. The clock is the parameter \<open>now\<close>, as above.
\<close>

record token =
  tok_id :: string
  tok_type :: string
  tok_owner :: string
  tok_value :: int
  tok_timestamp :: string
  tok_immutable :: bool

record entry =
  index :: nat
  token_id :: string
  token_type :: string
  owner :: string
  entry_value :: int
  entry_timestamp :: int
  added_at :: int
  hash :: string
  previous_hash :: string
  entry_immutable :: bool
  sealed :: bool
  merkle_root :: "string option"

record merkleRoot =
  root_id :: string
  batch_start :: int
  batch_end :: int
  batch_size :: nat
  root_timestamp :: int
  root_hash :: string
  root_sealed :: bool
  root_immutable :: bool

record ImmutableLedger =
  ledger :: "entry list"
  merkleRoots :: "merkleRoot list"
  ledger_sealed :: bool

datatype error = Error string

definition new_ImmutableLedger :: ImmutableLedger where
  "new_ImmutableLedger = \<lparr> ledger = [], merkleRoots = [], ledger_sealed = False \<rparr>"

text \<open>\<open>Number.prototype.toString(radix)\<close> on a natural number, radix 10 and 16.\<close>

definition digit_char :: "nat \<Rightarrow> char" where
  "digit_char d = ''0123456789abcdef'' ! d"

function to_radix :: "nat \<Rightarrow> nat \<Rightarrow> string" where
  "to_radix b n =
     (if b < 2 \<or> n < b then [digit_char n]
      else to_radix b (n div b) @ [digit_char (n mod b)])"
  by pat_completeness auto
termination
  by (relation "measure (\<lambda>(b, n). n)") auto

definition number_string :: "int \<Rightarrow> string" where
  "number_string v = (if v < 0 then ''-'' @ to_radix 10 (nat (- v)) else to_radix 10 (nat v))"

definition padStart :: "nat \<Rightarrow> char \<Rightarrow> string \<Rightarrow> string" where
  "padStart n c s = replicate (n - length s) c @ s"

text \<open>
  The rolling hash of both hash methods: \<open>hash = ((hash << 5) - hash) + char\<close> followed by
  \<open>hash = hash & hash\<close>, which keeps the value a 32-bit two's complement integer.
\<close>

fun rolling_hash :: "string \<Rightarrow> 32 word \<Rightarrow> 32 word" where
  "rolling_hash [] h = h"
| "rolling_hash (c # cs) h = rolling_hash cs ((push_bit 5 h - h) + of_char c)"

definition abs_hex :: "32 word \<Rightarrow> string" where
  "abs_hex h = to_radix 16 (nat \<bar>sint h\<bar>)"

definition calculateHash :: "token \<Rightarrow> string" where
  "calculateHash tok =
     (let data = tok_id tok @ tok_type tok @ tok_owner tok
                 @ number_string (tok_value tok) @ tok_timestamp tok
      in ''0x'' @ padStart 16 CHR ''0'' (abs_hex (rolling_hash data 0)))"

definition calculateBatchHash :: "entry list \<Rightarrow> string" where
  "calculateBatchHash batch =
     (let hashes = concat (map hash batch)
      in ''0x'' @ padStart 32 CHR ''0'' (abs_hex (rolling_hash hashes 0)))"

text \<open>\<open>slice(a, b)\<close> for \<open>0 \<le> a\<close> and \<open>0 \<le> b\<close>.\<close>

definition slice :: "nat \<Rightarrow> nat \<Rightarrow> 'a list \<Rightarrow> 'a list" where
  "slice a b xs = take (b - a) (drop a xs)"

text \<open>The loop of \<open>createMerkleRoot\<close> that marks the entries \<open>i..lastIndex-1\<close>.\<close>

function seal_loop :: "nat \<Rightarrow> nat \<Rightarrow> string \<Rightarrow> entry list \<Rightarrow> entry list" where
  "seal_loop i lastIndex rid es =
     (if i < lastIndex then
        seal_loop (i + 1) lastIndex rid
          (es[i := (es ! i)\<lparr> sealed := True, merkle_root := Some rid \<rparr>])
      else es)"
  by pat_completeness auto
termination
  by (relation "measure (\<lambda>(i, lastIndex, rid, es). lastIndex - i)") auto

definition createMerkleRoot :: "int \<Rightarrow> ImmutableLedger \<Rightarrow> merkleRoot \<times> ImmutableLedger" where
  "createMerkleRoot now L =
     (let lastIndex = length (ledger L);
          batchStart = max 0 (int lastIndex - 100);
          batch = slice (nat batchStart) lastIndex (ledger L);
          root = \<lparr> root_id = ''MERKLE_'' @ number_string now,
                   batch_start = batchStart,
                   batch_end = int lastIndex - 1,
                   batch_size = length batch,
                   root_timestamp = now,
                   root_hash = calculateBatchHash batch,
                   root_sealed = True,
                   root_immutable = True \<rparr>
      in (root,
          L\<lparr> merkleRoots := merkleRoots L @ [root],
             ledger := seal_loop (nat batchStart) lastIndex (root_id root) (ledger L) \<rparr>))"

text \<open>
  \<open>addToken\<close> returns the entry object it pushed; when the call also seals, the returned
  object is the sealed one, so the model returns the last entry of the new ledger.
\<close>

definition addToken :: "int \<Rightarrow> token \<Rightarrow> ImmutableLedger \<Rightarrow> error + (entry \<times> ImmutableLedger)" where
  "addToken now tok L =
     (if \<not> tok_immutable tok then Inl (Error ''Only immutable tokens can be added to ledger'')
      else
        (let e = \<lparr> index = length (ledger L),
                   token_id = tok_id tok,
                   token_type = tok_type tok,
                   owner = tok_owner tok,
                   entry_value = tok_value tok,
                   entry_timestamp = now,
                   added_at = now,
                   hash = calculateHash tok,
                   previous_hash = (if length (ledger L) > 0 then hash (last (ledger L)) else ''0''),
                   entry_immutable = True,
                   sealed = False,
                   merkle_root = None \<rparr>;
             L1 = L\<lparr> ledger := ledger L @ [e] \<rparr>;
             L2 = (if length (ledger L1) mod 100 = 0 then snd (createMerkleRoot now L1) else L1)
         in Inr (last (ledger L2), L2)))"

text \<open>A sequence of appends, each at its own instant; it stops at the first one that throws.\<close>

fun appends :: "ImmutableLedger \<Rightarrow> (int \<times> token) list \<Rightarrow> error + ImmutableLedger" where
  "appends L [] = Inr L"
| "appends L ((now, tok) # rest) =
     (case addToken now tok L of
        Inl err \<Rightarrow> Inl err
      | Inr (e, L') \<Rightarrow> appends L' rest)"

record chain_error =
  ce_index :: nat
  ce_error :: string
  expected :: string
  actual :: string

record integrity =
  valid :: bool
  total_entries :: nat
  verified_entries :: nat
  chain_errors :: "chain_error list"

function verify_loop :: "nat \<Rightarrow> entry list \<Rightarrow> integrity \<Rightarrow> integrity" where
  "verify_loop i es results =
     (if i < length es then
        (let current = es ! i;
             previous = es ! (i - 1)
         in verify_loop (i + 1) es
              (if previous_hash current \<noteq> hash previous then
                 results\<lparr> valid := False,
                          chain_errors := chain_errors results @
                            [\<lparr> ce_index = i, ce_error = ''Hash chain broken'',
                               expected = hash previous,
                               actual = previous_hash current \<rparr>] \<rparr>
               else results\<lparr> verified_entries := verified_entries results + 1 \<rparr>))
      else results)"
  by pat_completeness auto
termination
  by (relation "measure (\<lambda>(i, es, results). length es - i)") auto

definition verifyIntegrity :: "ImmutableLedger \<Rightarrow> integrity" where
  "verifyIntegrity L =
     verify_loop 1 (ledger L)
       \<lparr> valid = True, total_entries = length (ledger L), verified_entries = 0,
         chain_errors = [] \<rparr>"

text \<open>The link of entry \<open>i\<close> to its predecessor, and the record of a broken one.\<close>

definition linked :: "entry list \<Rightarrow> nat \<Rightarrow> bool" where
  "linked es i = (previous_hash (es ! i) = hash (es ! (i - 1)))"

definition broken_link :: "entry list \<Rightarrow> nat \<Rightarrow> chain_error" where
  "broken_link es i =
     \<lparr> ce_index = i, ce_error = ''Hash chain broken'',
       expected = hash (es ! (i - 1)), actual = previous_hash (es ! i) \<rparr>"

section \<open>Batch processor (class BatchProcessor)\<close>

text \<open>
  A request is an object of which the processor reads only \<open>type\<close>; the rest is the
  payload. The two collaborators are injected through the constructor, so they are
  parameters here: they run on a collaborator state \<open>'c\<close>, \<open>mint\<close> resolves to a result
  object or throws, \<open>createToken\<close> returns a token or throws. The batch id and the instant
  come from \<open>Date.now()\<close> and \<open>Math.random()\<close> and are parameters too.
\<close>

record 'p request =
  req_type :: "string option"
  payload :: 'p

record 'p queued =
  q_request :: "'p request"
  queued_at :: int
  status :: string

record 'p batch_error =
  err_index :: nat
  err_request :: "'p queued"
  err_message :: string

record 'p batch_results =
  batch_id :: string
  res_timestamp :: int
  res_size :: int
  tokens :: "token list"
  errors :: "'p batch_error list"

record 'p BatchProcessor =
  queue :: "'p queued list"
  processing :: bool
  maxBatchSize :: int
  batchHistory :: "'p batch_results list"

datatype mint_result = MintSuccess token | MintFailure string | MintThrew string

type_synonym ('c, 'p) minter = "'c \<Rightarrow> 'p queued \<Rightarrow> mint_result \<times> 'c"
type_synonym ('c, 'p) factory = "'c \<Rightarrow> 'p queued \<Rightarrow> (string + token) \<times> 'c"

datatype 'p batch_return =
    BatchError string
  | BatchMessage string
  | BatchResults "'p batch_results"

definition new_BatchProcessor :: "'p BatchProcessor" where
  "new_BatchProcessor = \<lparr> queue = [], processing = False, maxBatchSize = 100, batchHistory = [] \<rparr>"

definition addToQueue ::
  "int \<Rightarrow> 'p request \<Rightarrow> 'p BatchProcessor \<Rightarrow> (bool \<times> nat \<times> real) \<times> 'p BatchProcessor" where
  "addToQueue now req s =
     (let s' = s\<lparr> queue := queue s @ [\<lparr> q_request = req, queued_at = now, status = ''queued'' \<rparr>] \<rparr>
      in ((True, length (queue s'), real (length (queue s')) * (1 / 10)), s'))"

text \<open>
  The body of the loop: the outcome for one request is its token (\<open>Inr\<close>) or the message
  of the error the \<open>catch\<close> receives (\<open>Inl\<close>). \<open>!request.type\<close> holds for an absent
  type and for the empty string.
\<close>

definition process_item ::
  "('c, 'p) minter \<Rightarrow> ('c, 'p) factory \<Rightarrow> 'c \<Rightarrow> 'p queued \<Rightarrow> (string + token) \<times> 'c" where
  "process_item mint createToken c r =
     (if req_type (q_request r) = Some ''ALC'' \<or> req_type (q_request r) = None
         \<or> req_type (q_request r) = Some [] then
        (case mint c r of
           (MintSuccess t, c') \<Rightarrow> (Inr t, c')
         | (MintFailure msg, c') \<Rightarrow> (Inl msg, c')
         | (MintThrew msg, c') \<Rightarrow> (Inl msg, c'))
      else createToken c r)"

fun batch_loop ::
  "('c, 'p) minter \<Rightarrow> ('c, 'p) factory \<Rightarrow> nat \<Rightarrow> 'p queued list \<Rightarrow> 'p batch_results \<Rightarrow> 'c
     \<Rightarrow> 'p batch_results \<times> 'c" where
  "batch_loop mint createToken i [] results c = (results, c)"
| "batch_loop mint createToken i (r # rest) results c =
     (case process_item mint createToken c r of
        (Inr t, c') \<Rightarrow>
          batch_loop mint createToken (i + 1) rest
            (results\<lparr> tokens := tokens results @ [t] \<rparr>) c'
      | (Inl msg, c') \<Rightarrow>
          batch_loop mint createToken (i + 1) rest
            (results\<lparr> errors := errors results @
               [\<lparr> err_index = i, err_request = r, err_message = msg \<rparr>] \<rparr>) c')"

text \<open>
  \<open>processBatch\<close> is asynchronous: it runs without interruption up to its first
  \<open>await\<close>, and other calls can run while it waits. \<open>startBatch\<close> is that first part
  (the guard, the size, \<open>processing = true\<close>, the \<open>splice\<close>); \<open>finishBatch\<close> is the rest.
  \<open>batchSize || maxBatchSize\<close> takes the default for \<open>null\<close> and for 0.
\<close>

definition batch_size_of :: "int option \<Rightarrow> 'p BatchProcessor \<Rightarrow> int" where
  "batch_size_of batchSize s =
     min (case batchSize of None \<Rightarrow> maxBatchSize s
                          | Some b \<Rightarrow> if b = 0 then maxBatchSize s else b)
         (int (length (queue s)))"

definition startBatch ::
  "string \<Rightarrow> int \<Rightarrow> int option \<Rightarrow> 'p BatchProcessor
     \<Rightarrow> ('p batch_return + ('p queued list \<times> 'p batch_results)) \<times> 'p BatchProcessor" where
  "startBatch bid now batchSize s =
     (if processing s then (Inl (BatchError ''Batch already processing''), s)
      else
        (let size = batch_size_of batchSize s
         in if size = 0 then (Inl (BatchMessage ''Queue is empty''), s)
            else
              (Inr (take (nat size) (queue s),
                    \<lparr> batch_id = bid, res_timestamp = now, res_size = size,
                      tokens = [], errors = [] \<rparr>),
               s\<lparr> processing := True, queue := drop (nat size) (queue s) \<rparr>)))"

definition finishBatch ::
  "('c, 'p) minter \<Rightarrow> ('c, 'p) factory \<Rightarrow> 'p queued list \<Rightarrow> 'p batch_results
     \<Rightarrow> 'p BatchProcessor \<times> 'c \<Rightarrow> 'p batch_return \<times> 'p BatchProcessor \<times> 'c" where
  "finishBatch mint createToken batch results0 sc =
     (case sc of (s, c) \<Rightarrow>
        (case batch_loop mint createToken 0 batch results0 c of (results, c') \<Rightarrow>
           (let hist = batchHistory s @ [results];
                hist' = (if length hist > 50 then slice_last 50 hist else hist)
            in (BatchResults results,
                s\<lparr> processing := False, batchHistory := hist' \<rparr>, c'))))"

definition processBatch ::
  "('c, 'p) minter \<Rightarrow> ('c, 'p) factory \<Rightarrow> string \<Rightarrow> int \<Rightarrow> int option
     \<Rightarrow> 'p BatchProcessor \<times> 'c \<Rightarrow> 'p batch_return \<times> 'p BatchProcessor \<times> 'c" where
  "processBatch mint createToken bid now batchSize sc =
     (case sc of (s, c) \<Rightarrow>
        (case startBatch bid now batchSize s of
           (Inl ret, s') \<Rightarrow> (ret, s', c)
         | (Inr (batch, results0), s') \<Rightarrow> finishBatch mint createToken batch results0 (s', c)))"

definition autoProcess ::
  "('c, 'p) minter \<Rightarrow> ('c, 'p) factory \<Rightarrow> string \<Rightarrow> int
     \<Rightarrow> 'p BatchProcessor \<times> 'c \<Rightarrow> 'p batch_return \<times> 'p BatchProcessor \<times> 'c" where
  "autoProcess mint createToken bid now sc =
     (if length (queue (fst sc)) \<ge> 10 then processBatch mint createToken bid now (Some 10) sc
      else (BatchMessage ''Queue too small for auto-processing'', sc))"

text \<open>The requests of a list enqueued one after the other, each at its instant.\<close>

definition enqueue_all :: "'p BatchProcessor \<Rightarrow> (int \<times> 'p request) list \<Rightarrow> 'p BatchProcessor" where
  "enqueue_all s reqs = foldl (\<lambda>s (now, req). snd (addToQueue now req s)) s reqs"

section \<open>Auxiliary definitions for the statements and proofs\<close>

text \<open>What \<open>detectAbuse\<close> reads of an activity: its instant and its type.\<close>

definition stamp :: "activity \<Rightarrow> int \<times> string" where
  "stamp a = (act_timestamp a, act_type a)"

text \<open>What the seal loop does to one entry, and what it leaves alone.\<close>

definition seal_entry :: "string \<Rightarrow> entry \<Rightarrow> entry" where
  "seal_entry rid e = e\<lparr> sealed := True, merkle_root := Some rid \<rparr>"

definition core :: "entry \<Rightarrow> nat \<times> string \<times> string" where
  "core e = (index e, hash e, previous_hash e)"

text \<open>The chain: dense indices, genesis value \<open>'0'\<close>, each entry linked to the one before.\<close>

definition chained :: "entry list \<Rightarrow> bool" where
  "chained es =
     (\<forall>i < length es. index (es ! i) = i
        \<and> previous_hash (es ! i) = (if i = 0 then ''0'' else hash (es ! (i - 1))))"

text \<open>The range a Merkle root covers, and the \<open>k\<close>-th full range of 100 entries.\<close>

definition range_of :: "merkleRoot \<Rightarrow> int \<times> int \<times> nat" where
  "range_of r = (batch_start r, batch_end r, batch_size r)"

definition full_range :: "nat \<Rightarrow> int \<times> int \<times> nat" where
  "full_range k = (int (100 * k), int (100 * k + 99), 100)"

text \<open>
  The sealing state of a ledger of \<open>n\<close> entries built by appends alone: one root per full
  range, the entries below \<open>100 * (n div 100)\<close> sealed under the root of their range, the
  others not sealed.
\<close>

definition sealed_upto :: "ImmutableLedger \<Rightarrow> bool" where
  "sealed_upto L =
     (let n = length (ledger L); m = n div 100
      in map range_of (merkleRoots L) = map full_range [0..<m]
         \<and> (\<forall>i < n. if i < 100 * m
                     then sealed (ledger L ! i)
                          \<and> merkle_root (ledger L ! i) = Some (root_id (merkleRoots L ! (i div 100)))
                     else \<not> sealed (ledger L ! i) \<and> merkle_root (ledger L ! i) = None))"

definition ledger_inv :: "ImmutableLedger \<Rightarrow> bool" where
  "ledger_inv L = (chained (ledger L) \<and> sealed_upto L)"

text \<open>The ledger after the \<open>push\<close> of \<open>addToken\<close>, before its seal check.\<close>

definition pushed :: "int \<Rightarrow> token \<Rightarrow> ImmutableLedger \<Rightarrow> ImmutableLedger" where
  "pushed now tok L =
     L\<lparr> ledger := ledger L @
         [\<lparr> index = length (ledger L), token_id = tok_id tok, token_type = tok_type tok,
            owner = tok_owner tok, entry_value = tok_value tok, entry_timestamp = now,
            added_at = now, hash = calculateHash tok,
            previous_hash = (if length (ledger L) > 0 then hash (last (ledger L)) else ''0''),
            entry_immutable = True, sealed = False, merkle_root = None \<rparr>] \<rparr>"

text \<open>
  The outcomes of the items of a batch, each computed on the collaborator state the items
  before it left behind; the tokens and the error records they amount to.
\<close>

fun outcomes ::
  "('c, 'p) minter \<Rightarrow> ('c, 'p) factory \<Rightarrow> 'c \<Rightarrow> 'p queued list \<Rightarrow> (string + token) list" where
  "outcomes mint createToken c [] = []"
| "outcomes mint createToken c (r # rest) =
     (case process_item mint createToken c r of
        (out, c') \<Rightarrow> out # outcomes mint createToken c' rest)"

fun successes :: "(string + token) list \<Rightarrow> token list" where
  "successes [] = []"
| "successes (Inr t # outs) = t # successes outs"
| "successes (Inl msg # outs) = successes outs"

fun failures :: "nat \<Rightarrow> 'p queued list \<Rightarrow> (string + token) list \<Rightarrow> 'p batch_error list" where
  "failures i (r # rest) (Inl msg # outs) =
     \<lparr> err_index = i, err_request = r, err_message = msg \<rparr> # failures (i + 1) rest outs"
| "failures i (r # rest) (Inr t # outs) = failures (i + 1) rest outs"
| "failures i _ _ = []"

definition queued_of :: "int \<times> 'p request \<Rightarrow> 'p queued" where
  "queued_of x = \<lparr> q_request = snd x, queued_at = fst x, status = ''queued'' \<rparr>"

text \<open>
  One item of a batch, in terms of the collaborators: on the state \<open>c\<close> the collaborator the
  request goes to (the minter for type \<open>'ALC'\<close> or no type, the factory otherwise) gives
  the outcome \<open>out\<close>, a token or the message of a failure, and leaves the state \<open>c'\<close>.
\<close>

definition item_step ::
  "('c, 'p) minter \<Rightarrow> ('c, 'p) factory \<Rightarrow> 'c \<Rightarrow> 'p queued \<Rightarrow> string + token \<Rightarrow> 'c \<Rightarrow> bool" where
  "item_step m f c r out c' =
     (if req_type (q_request r) \<in> {Some ''ALC'', None, Some []}
      then (case out of
              Inr t \<Rightarrow> m c r = (MintSuccess t, c')
            | Inl msg \<Rightarrow> m c r = (MintFailure msg, c') \<or> m c r = (MintThrew msg, c'))
      else f c r = (out, c'))"

subsection \<open>Concrete inputs\<close>

definition demo_token :: token where
  "demo_token =
     \<lparr> tok_id = ''ALC_1700000000000_k3j9x'', tok_type = ''ALC'', tok_owner = ''alice'',
       tok_value = 5, tok_timestamp = ''2023-11-14T22:13:20.000Z'', tok_immutable = True \<rparr>"

definition two_tokens :: "(int \<times> token) list" where
  "two_tokens = [(1700000000000, demo_token),
                 (1700000000250, demo_token\<lparr> tok_owner := ''bob'', tok_value := 7 \<rparr>)]"

definition demo_entry :: "nat \<Rightarrow> string \<Rightarrow> string \<Rightarrow> entry" where
  "demo_entry i h p =
     \<lparr> index = i, token_id = ''t'', token_type = ''ALC'', owner = ''alice'', entry_value = 1,
       entry_timestamp = 0, added_at = 0, hash = h, previous_hash = p,
       entry_immutable = True, sealed = False, merkle_root = None \<rparr>"

definition broken_ledger :: ImmutableLedger where
  "broken_ledger =
     \<lparr> ledger = [demo_entry 0 ''h0'' ''0'', demo_entry 1 ''h1'' ''h0'',
                 demo_entry 2 ''h2'' ''zz'', demo_entry 3 ''h3'' ''h2'',
                 demo_entry 4 ''h4'' ''yy''],
       merkleRoots = [], ledger_sealed = False \<rparr>"

text \<open>The ledger after \<open>demo_token\<close> is appended to a new ledger.\<close>

definition one_entry_ledger :: ImmutableLedger where
  "one_entry_ledger =
     \<lparr> ledger =
         [\<lparr> index = 0, token_id = ''ALC_1700000000000_k3j9x'', token_type = ''ALC'',
            owner = ''alice'', entry_value = 5, entry_timestamp = 1700000000000,
            added_at = 1700000000000, hash = ''0x000000005154758e'', previous_hash = ''0'',
            entry_immutable = True, sealed = False, merkle_root = None \<rparr>],
       merkleRoots = [], ledger_sealed = False \<rparr>"

definition alc_request :: "unit request" where
  "alc_request = \<lparr> req_type = Some ''ALC'', payload = () \<rparr>"

definition art_request :: "unit request" where
  "art_request = \<lparr> req_type = Some ''ART'', payload = () \<rparr>"

definition twelve_requests :: "(int \<times> unit request) list" where
  "twelve_requests =
     [(0, alc_request), (1, alc_request), (2, alc_request), (3, art_request),
      (4, alc_request), (5, alc_request), (6, alc_request), (7, alc_request),
      (8, alc_request), (9, alc_request), (10, alc_request), (11, alc_request)]"

text \<open>A minter that always mints, a factory that rejects every request.\<close>

definition minting :: "(unit, unit) minter" where
  "minting c r = (MintSuccess demo_token, c)"

definition rejecting :: "(unit, unit) factory" where
  "rejecting c r = (Inl ''Token validation failed'', c)"

text \<open>A processor that has started a batch and waits for its first item.\<close>

definition busy_processor :: "unit BatchProcessor" where
  "busy_processor =
     snd (startBatch ''BATCH_1'' 10 None (snd (addToQueue 5 alc_request new_BatchProcessor)))"

declare to_radix.simps [simp del]
declare seal_loop.simps [simp del]
declare verify_loop.simps [simp del]

section \<open>Properties of the capacitor\<close>

lemma exec_preserves:
  assumes "consts_ok s" and "charge_inv s" and "nonneg_arg (snd c)"
  shows "consts_ok (exec s c) \<and> charge_inv (exec s c)"
proof (cases c)
  case (Pair now k)
  show ?thesis
    using assms unfolding Pair
    by (cases k)
       (auto simp: consts_ok_def charge_inv_def registerActivity_def attemptMint_def
                   applyDecay_def boost_def Let_def canMint_def)
qed

lemma run_preserves:
  "consts_ok s \<Longrightarrow> charge_inv s \<Longrightarrow> list_all (\<lambda>c. nonneg_arg (snd c)) calls \<Longrightarrow>
   consts_ok (run s calls) \<and> charge_inv (run s calls)"
  unfolding run_def
proof (induction calls arbitrary: s)
  case Nil
  then show ?case by simp
next
  case (Cons c calls)
  from exec_preserves [of s c] Cons.prems
  have "consts_ok (exec s c) \<and> charge_inv (exec s c)" by simp
  with Cons.IH [of "exec s c"] Cons.prems show ?case by simp
qed

lemma new_CapacitorMint_inv:
  "consts_ok (new_CapacitorMint cfg) \<and> charge_inv (new_CapacitorMint cfg)"
  by (simp add: consts_ok_def charge_inv_def new_CapacitorMint_def)

text \<open>
  Claim C3, as stated, fails: the methods validate no argument, \<open>boost\<close> and
  \<open>registerActivity\<close> clamp only from above and \<open>applyDecay\<close> only from below. On a
  new capacitor, \<open>boost(-1)\<close> leaves the charge at \<open>-1\<close>.
\<close>

theorem C3_counterexample:
  "\<not> (0 \<le> charge (run (new_CapacitorMint None) [(0, Boost (-1))]))"
  by (simp add: run_def boost_def new_CapacitorMint_def Let_def)

text \<open>
  Claim C3, amended: for every sequence of calls of \<open>registerActivity\<close>, \<open>attemptMint\<close>,
  \<open>applyDecay\<close> and \<open>boost\<close> on a new capacitor whose numeric arguments (intensity,
  decay rate, boost amount) are all non-negative, \<open>0 \<le> charge \<le> maxCharge\<close> holds after
  every call, that is, after every prefix of the sequence.
\<close>

theorem C3_charge_bounds:
  assumes "list_all (\<lambda>c. nonneg_arg (snd c)) calls" and "k \<le> length calls"
  shows "0 \<le> charge (run (new_CapacitorMint cfg) (take k calls))
       \<and> charge (run (new_CapacitorMint cfg) (take k calls))
           \<le> maxCharge (run (new_CapacitorMint cfg) (take k calls))"
proof -
  have "list_all (\<lambda>c. nonneg_arg (snd c)) (take k calls)"
    using assms(1) by (auto simp: list_all_iff dest: in_set_takeD)
  from run_preserves [OF conjunct1 [OF new_CapacitorMint_inv]
                         conjunct2 [OF new_CapacitorMint_inv] this]
  show ?thesis by (simp add: charge_inv_def)
qed

theorem C3_charge_bounds_witness:
  "list_all (\<lambda>c. nonneg_arg (snd c))
      [(0, RegisterActivity ''click'' 150), (5, AttemptMint),
       (9, ApplyDecay (1 / 10)), (12, Boost 30)]
   \<and> (3::nat) \<le> length [(0::int, RegisterActivity ''click'' 150), (5, AttemptMint),
                         (9, ApplyDecay (1 / 10)), (12, Boost 30)]
   \<and> 0 \<le> charge (run (new_CapacitorMint None)
        (take 3 [(0, RegisterActivity ''click'' 150), (5, AttemptMint),
                 (9, ApplyDecay (1 / 10)), (12, Boost 30)]))
   \<and> charge (run (new_CapacitorMint None)
        (take 3 [(0, RegisterActivity ''click'' 150), (5, AttemptMint),
                 (9, ApplyDecay (1 / 10)), (12, Boost 30)]))
       \<le> maxCharge (run (new_CapacitorMint None)
        (take 3 [(0, RegisterActivity ''click'' 150), (5, AttemptMint),
                 (9, ApplyDecay (1 / 10)), (12, Boost 30)]))"
  using C3_charge_bounds [of "[(0, RegisterActivity ''click'' 150), (5, AttemptMint),
                               (9, ApplyDecay (1 / 10)), (12, Boost 30)]" 3 None]
  by simp

text \<open>
  Claim C4: \<open>attemptMint\<close> succeeds exactly when \<open>charge \<ge> threshold\<close>; on success the
  new charge is \<open>max 0 (charge - dischargeRate)\<close> and \<open>lastMintTime\<close> is the instant of the
  call; on rejection the state is returned as it was, with \<open>needed = threshold - charge\<close>.
  On a new capacitor with threshold 100 (charge 0, discharge rate 20),
  \<open>registerActivity('click', 100)\<close> makes \<open>canMint\<close> true and the next \<open>attemptMint\<close>
  leaves the charge at 80.
\<close>

theorem C4_attemptMint:
  "(success (fst (attemptMint now s)) \<longleftrightarrow> charge s \<ge> threshold s)
   \<and> (charge s \<ge> threshold s \<longrightarrow>
        attemptMint now s =
          (Minted (max 0 (charge s - dischargeRate s)) now,
           s\<lparr> charge := max 0 (charge s - dischargeRate s), lastMintTime := Some now \<rparr>))
   \<and> (charge s < threshold s \<longrightarrow>
        attemptMint now s =
          (Rejected ''Insufficient capacitor charge'' (charge s) (threshold s)
             (threshold s - charge s), s))
   \<and> (let s1 = snd (registerActivity t0 ''click'' 100 (new_CapacitorMint (Some 100)))
      in charge (new_CapacitorMint (Some 100)) = 0
         \<and> threshold s1 = 100 \<and> dischargeRate s1 = 20
         \<and> canMint s1
         \<and> success (fst (attemptMint t1 s1))
         \<and> charge (snd (attemptMint t1 s1)) = 80)"
  by (auto simp: attemptMint_def canMint_def Let_def registerActivity_def new_CapacitorMint_def)

theorem C4_attemptMint_witness:
  "threshold (new_CapacitorMint None\<lparr> charge := 100 \<rparr>)
     \<le> charge (new_CapacitorMint None\<lparr> charge := 100 \<rparr>)
   \<and> attemptMint 7 (new_CapacitorMint None\<lparr> charge := 100 \<rparr>)
       = (Minted 80 7, new_CapacitorMint None\<lparr> charge := 80, lastMintTime := Some 7 \<rparr>)
   \<and> charge (new_CapacitorMint None\<lparr> charge := 15 \<rparr>)
       < threshold (new_CapacitorMint None\<lparr> charge := 15 \<rparr>)
   \<and> attemptMint 7 (new_CapacitorMint None\<lparr> charge := 15 \<rparr>)
       = (Rejected ''Insufficient capacitor charge'' 15 100 85,
          new_CapacitorMint None\<lparr> charge := 15 \<rparr>)"
  using C4_attemptMint [of 7 "new_CapacitorMint None\<lparr> charge := 100 \<rparr>"]
        C4_attemptMint [of 7 "new_CapacitorMint None\<lparr> charge := 15 \<rparr>"]
  by (simp add: new_CapacitorMint_def)

text \<open>
  Claim C10: when \<open>charge < threshold\<close>, \<open>attemptMint\<close> is rejected and returns the
  controller state unchanged: charge, threshold, \<open>lastMintTime\<close>, the activity log and
  every other field are those of the state before the call.
\<close>

theorem C10_rejected_unchanged:
  "charge s < threshold s \<Longrightarrow>
   \<not> success (fst (attemptMint now s)) \<and> snd (attemptMint now s) = s"
  by (simp add: attemptMint_def canMint_def)

theorem C10_rejected_unchanged_witness:
  "charge (new_CapacitorMint None) < threshold (new_CapacitorMint None)
   \<and> \<not> success (fst (attemptMint 5 (new_CapacitorMint None)))
   \<and> snd (attemptMint 5 (new_CapacitorMint None)) = new_CapacitorMint None"
proof -
  have h: "charge (new_CapacitorMint None) < threshold (new_CapacitorMint None)"
    by (simp add: new_CapacitorMint_def)
  from C10_rejected_unchanged [OF h, of 5] h show ?thesis by simp
qed

section \<open>Abuse detection\<close>

lemma slice_last_absorb:
  "n \<le> m \<Longrightarrow> slice_last n (slice_last m xs @ ys) = slice_last n (xs @ ys)"
proof -
  assume nm: "n \<le> m"
  have "length xs + length ys - (length xs - m + n) + (length xs - m) = length xs + length ys - n"
    using nm by arith
  then show ?thesis using nm by (simp add: slice_last_def)
qed

lemma slice_last_all: "length xs \<le> n \<Longrightarrow> slice_last n xs = xs"
  by (simp add: slice_last_def)

lemma registerActivity_log:
  "activityLog (snd (registerActivity now ty i s))
     = slice_last 100 (activityLog s @
         [\<lparr> act_type = ty, intensity = i, charge_added = i * chargeRate s,
            act_timestamp = now,
            total_charge = min (maxCharge s) (charge s + i * chargeRate s) \<rparr>])"
  by (simp add: registerActivity_def Let_def slice_last_def)

lemma stamps_after_register:
  "map stamp (slice_last 100 (activityLog
       (run s (map (\<lambda>(t, i). (t, RegisterActivity k i)) tis))))
   = slice_last 100 (map stamp (activityLog s) @ map (\<lambda>(t, i). (t, k)) tis)"
proof (induction tis arbitrary: s)
  case Nil
  show ?case by (simp add: run_def slice_last_def drop_map)
next
  case (Cons ti tis)
  obtain t i where ti: "ti = (t, i)" by (cases ti)
  let ?s1 = "snd (registerActivity t k i s)"
  have "map stamp (slice_last 100 (activityLog (run ?s1 (map (\<lambda>(t, i). (t, RegisterActivity k i)) tis))))
        = slice_last 100 (map stamp (activityLog ?s1) @ map (\<lambda>(t, i). (t, k)) tis)"
    by (rule Cons.IH)
  also have "map stamp (activityLog ?s1) = slice_last 100 (map stamp (activityLog s) @ [(t, k)])"
    by (simp add: registerActivity_log slice_last_def drop_map stamp_def)
  also have "slice_last 100 (slice_last 100 (map stamp (activityLog s) @ [(t, k)]) @ map (\<lambda>(t, i). (t, k)) tis)
        = slice_last 100 (map stamp (activityLog s) @ map (\<lambda>(t, i). (t, k)) (ti # tis))"
    by (simp add: slice_last_absorb ti)
  finally show ?case by (simp add: ti run_def)
qed

lemma slice_last_twice: "n \<le> m \<Longrightarrow> slice_last n (slice_last m xs) = slice_last n xs"
  using slice_last_absorb [of n m xs "[]"] by simp

lemma slice_last_map: "map f (slice_last n xs) = slice_last n (map f xs)"
  by (simp add: slice_last_def drop_map)

lemma slice_last_suffix: "length ys = n \<Longrightarrow> slice_last n (xs @ ys) = ys"
  by (simp add: slice_last_def)

lemma length_slice_last: "length (slice_last n xs) = min n (length xs)"
  by (simp add: slice_last_def)

lemma detectAbuse_unfold:
  assumes "length (activityLog s) \<ge> 10"
  shows "detectAbuse s =
     (let recent = slice_last 10 (activityLog s)
      in if act_timestamp (last recent) - act_timestamp (hd recent) < 1000 then rapid_fire
         else if (\<forall>a \<in> set recent. act_type a = act_type (hd recent)) then repetitive
         else no_abuse)"
proof -
  let ?r = "slice_last 10 (activityLog s)"
  have len: "length ?r = 10" using assms by (simp add: length_slice_last)
  then have ne: "?r \<noteq> []" by auto
  have "last (map act_timestamp ?r) = act_timestamp (last ?r)"
    using ne by (simp add: last_map)
  moreover have "hd (map act_timestamp ?r) = act_timestamp (hd ?r)"
    using ne by (simp add: hd_map)
  moreover have "hd (map act_type ?r) = act_type (hd ?r)"
    using ne by (simp add: hd_map)
  ultimately show ?thesis
    using assms len by (simp add: detectAbuse_def Let_def list_all_iff)
qed

lemma detectAbuse_stamps:
  assumes "length (activityLog s) \<ge> 10"
  shows "detectAbuse s =
     (let st = map stamp (slice_last 10 (activityLog s))
      in if fst (last st) - fst (hd st) < 1000 then rapid_fire
         else if (\<forall>p \<in> set st. snd p = snd (hd st)) then repetitive
         else no_abuse)"
proof -
  let ?r = "slice_last 10 (activityLog s)"
  have "length ?r = 10" using assms by (simp add: length_slice_last)
  then have ne: "?r \<noteq> []" by auto
  then show ?thesis
    by (simp add: detectAbuse_unfold [OF assms] Let_def last_map hd_map stamp_def)
qed

lemma ten_same_kind:
  assumes len: "length tis = 10" and span: "1000 \<le> fst (last tis) - fst (hd tis)"
  shows "detectAbuse (run s0 (map (\<lambda>(t, i). (t, RegisterActivity k i)) tis)) = repetitive"
proof -
  let ?S = "run s0 (map (\<lambda>(t, i). (t, RegisterActivity k i)) tis)"
  let ?Y = "map (\<lambda>(t, i). (t, k)) tis"
  let ?A = "map stamp (activityLog s0)"
  have ne: "tis \<noteq> []" using len by auto
  have hundred: "map stamp (slice_last 100 (activityLog ?S)) = slice_last 100 (?A @ ?Y)"
    by (rule stamps_after_register)
  have "length (slice_last 100 (activityLog ?S)) = length (slice_last 100 (?A @ ?Y))"
    using arg_cong [OF hundred, of length] by simp
  then have long: "length (activityLog ?S) \<ge> 10"
    using len by (simp add: length_slice_last)
  have "map stamp (slice_last 10 (activityLog ?S))
        = slice_last 10 (map stamp (slice_last 100 (activityLog ?S)))"
    by (simp add: slice_last_map slice_last_twice)
  also have "\<dots> = slice_last 10 (?A @ ?Y)"
    by (simp add: hundred slice_last_twice)
  also have "\<dots> = ?Y"
    using len by (simp add: slice_last_suffix)
  finally have st: "map stamp (slice_last 10 (activityLog ?S)) = ?Y" .
  have "fst (last ?Y) = fst (last tis)" "fst (hd ?Y) = fst (hd tis)"
    using ne by (simp_all add: last_map hd_map split_beta)
  moreover have "\<forall>p \<in> set ?Y. snd p = snd (hd ?Y)"
    using ne by (auto simp: hd_map split_beta)
  ultimately show ?thesis
    using span unfolding detectAbuse_stamps [OF long] st Let_def by simp
qed

text \<open>
  Claim C9, amended: \<open>detectAbuse\<close> reports no abuse when fewer than 10 events are
  recorded. Otherwise it looks at the last 10 events: when the newest is less than 1000 ms
  after the oldest it reports \<open>rapid_fire\<close>; otherwise, when all 10 have the type of the
  first of them, it reports \<open>repetitive\<close> (the test \<open>types.length > 8\<close> always holds there);
  otherwise it reports no abuse. In particular, after 10 \<open>registerActivity\<close> calls of one
  type whose first and last instants are at least 1000 ms apart (spread over 2 seconds, for
  instance), on any controller, \<open>detectAbuse\<close> reports \<open>repetitive\<close>.
\<close>

theorem C9_detectAbuse:
  "(length (activityLog s) < 10 \<longrightarrow> detectAbuse s = no_abuse)
   \<and> (10 \<le> length (activityLog s) \<longrightarrow>
        detectAbuse s =
          (let recent = slice_last 10 (activityLog s)
           in if act_timestamp (last recent) - act_timestamp (hd recent) < 1000 then rapid_fire
              else if (\<forall>a \<in> set recent. act_type a = act_type (hd recent)) then repetitive
              else no_abuse))
   \<and> (length tis = 10 \<and> 1000 \<le> fst (last tis) - fst (hd tis) \<longrightarrow>
        detectAbuse (run s0 (map (\<lambda>(t, i). (t, RegisterActivity k i)) tis)) = repetitive)"
  using detectAbuse_unfold [of s] ten_same_kind [of tis s0 k]
  by (simp add: detectAbuse_def)

text \<open>
  Claim C9, as stated, fails in its last sentence: 10 events of one type that lie within a
  two-second window may lie within one second, and the rapid-fire rule is checked first.
  Ten clicks 100 ms apart, on a new controller, are reported as \<open>rapid_fire\<close>.
\<close>

theorem C9_counterexample:
  "pattern (detectAbuse (run (new_CapacitorMint None)
      [(0, RegisterActivity ''click'' 1), (100, RegisterActivity ''click'' 1),
       (200, RegisterActivity ''click'' 1), (300, RegisterActivity ''click'' 1),
       (400, RegisterActivity ''click'' 1), (500, RegisterActivity ''click'' 1),
       (600, RegisterActivity ''click'' 1), (700, RegisterActivity ''click'' 1),
       (800, RegisterActivity ''click'' 1), (900, RegisterActivity ''click'' 1)]))
   \<noteq> Some ''repetitive''"
  by (simp add: run_def registerActivity_def Let_def new_CapacitorMint_def detectAbuse_def
                slice_last_def canMint_def rapid_fire_def)

theorem C9_detectAbuse_witness:
  "pattern (detectAbuse (run (new_CapacitorMint None)
      (map (\<lambda>(t, i). (t, RegisterActivity ''click'' i))
        [(0, 1), (200, 1), (400, 1), (600, 1), (800, 1),
         (1000, 1), (1200, 1), (1400, 1), (1600, 1), (1800, 1)])))
   = Some ''repetitive''"
  using C9_detectAbuse [of "new_CapacitorMint None"
        "[(0, 1), (200, 1), (400, 1), (600, 1), (800, 1),
          (1000, 1), (1200, 1), (1400, 1), (1600, 1), (1800, 1)]"
        "new_CapacitorMint None" "''click''"]
  by (simp add: repetitive_def)

text \<open>
  The repetitive rule needs all of the last 10 events to agree: eight clicks after two
  events of other types, spread over two seconds, are not reported.
\<close>

lemma last8_not_repetitive:
  "detectAbuse (run (new_CapacitorMint None)
      [(0, RegisterActivity ''scroll'' 1), (200, RegisterActivity ''view'' 1),
       (400, RegisterActivity ''click'' 1), (600, RegisterActivity ''click'' 1),
       (800, RegisterActivity ''click'' 1), (1000, RegisterActivity ''click'' 1),
       (1200, RegisterActivity ''click'' 1), (1400, RegisterActivity ''click'' 1),
       (1600, RegisterActivity ''click'' 1), (1800, RegisterActivity ''click'' 1)])
   = no_abuse"
  by (simp add: run_def registerActivity_def Let_def new_CapacitorMint_def detectAbuse_def
                slice_last_def canMint_def)

section \<open>Properties of the ledger\<close>

text \<open>The hash of a concrete token, worked out on the model.\<close>

lemma demo_rolling_hash:
  "rolling_hash ''ALC_1700000000000_k3j9xALCalice52023-11-14T22:13:20.000Z'' 0 = 2930477682"
  by simp

lemma demo_abs_hex: "abs_hex 2930477682 = ''5154758e''"
  by (simp add: abs_hex_def to_radix.simps digit_char_def)

lemma demo_hash: "calculateHash demo_token = ''0x000000005154758e''"
proof -
  have "tok_id demo_token @ tok_type demo_token @ tok_owner demo_token
          @ number_string (tok_value demo_token) @ tok_timestamp demo_token
        = ''ALC_1700000000000_k3j9xALCalice52023-11-14T22:13:20.000Z''"
    by (simp add: demo_token_def number_string_def to_radix.simps digit_char_def)
  then show ?thesis
    by (simp only: calculateHash_def Let_def demo_rolling_hash demo_abs_hex)
       (simp add: padStart_def eval_nat_numeral)
qed

lemma seal_loop_length: "length (seal_loop i n rid es) = length es"
proof (induction i n rid es rule: seal_loop.induct)
  case (1 i lastIndex rid es)
  show ?case
  proof (cases "i < lastIndex")
    case True
    with "1.IH" show ?thesis by (subst seal_loop.simps) simp
  next
    case False
    then show ?thesis by (subst seal_loop.simps) simp
  qed
qed

lemma seal_loop_nth:
  "n \<le> length es \<Longrightarrow> j < length es \<Longrightarrow>
   seal_loop i n rid es ! j = (if i \<le> j \<and> j < n then seal_entry rid (es ! j) else es ! j)"
proof (induction i n rid es rule: seal_loop.induct)
  case (1 i lastIndex rid es)
  show ?case
  proof (cases "i < lastIndex")
    case True
    let ?es = "es[i := (es ! i)\<lparr> sealed := True, merkle_root := Some rid \<rparr>]"
    have "seal_loop i lastIndex rid es ! j = seal_loop (i + 1) lastIndex rid ?es ! j"
      using True by (subst seal_loop.simps) simp
    also have "\<dots> = (if i + 1 \<le> j \<and> j < lastIndex then seal_entry rid (?es ! j) else ?es ! j)"
      using "1.IH" [OF True] "1.prems" by simp
    also have "\<dots> = (if i \<le> j \<and> j < lastIndex then seal_entry rid (es ! j) else es ! j)"
      using True "1.prems" by (auto simp: seal_entry_def nth_list_update)
    finally show ?thesis .
  next
    case False
    then show ?thesis by (subst seal_loop.simps) auto
  qed
qed

lemma createMerkleRoot_roots:
  "merkleRoots (snd (createMerkleRoot now L)) =
     merkleRoots L @ [fst (createMerkleRoot now L)]"
  by (simp add: createMerkleRoot_def Let_def)

lemma createMerkleRoot_range:
  "batch_start (fst (createMerkleRoot now L)) = max 0 (int (length (ledger L)) - 100)"
  "batch_end (fst (createMerkleRoot now L)) = int (length (ledger L)) - 1"
  "batch_size (fst (createMerkleRoot now L)) = min 100 (length (ledger L))"
  "root_id (fst (createMerkleRoot now L)) = ''MERKLE_'' @ number_string now"
  by (auto simp: createMerkleRoot_def Let_def slice_def)

lemma createMerkleRoot_length:
  "length (ledger (snd (createMerkleRoot now L))) = length (ledger L)"
  by (simp add: createMerkleRoot_def Let_def seal_loop_length)

lemma createMerkleRoot_nth:
  "j < length (ledger L) \<Longrightarrow>
   ledger (snd (createMerkleRoot now L)) ! j =
     (if length (ledger L) - 100 \<le> j
      then seal_entry (''MERKLE_'' @ number_string now) (ledger L ! j)
      else ledger L ! j)"
  by (simp add: createMerkleRoot_def Let_def seal_loop_nth nat_diff_distrib')

lemma core_seal_entry: "core (seal_entry rid e) = core e"
  by (simp add: core_def seal_entry_def)

lemma chained_core:
  assumes "length es' = length es" and "\<forall>i < length es. core (es' ! i) = core (es ! i)"
      and "chained es"
  shows "chained es'"
  unfolding chained_def
proof (intro allI impI)
  fix i assume i: "i < length es'"
  then have a: "core (es' ! i) = core (es ! i)" using assms by simp
  have b: "i \<noteq> 0 \<Longrightarrow> core (es' ! (i - 1)) = core (es ! (i - 1))" using assms i by simp
  from assms(3) i assms(1)
  have c: "index (es ! i) = i \<and> previous_hash (es ! i) = (if i = 0 then ''0'' else hash (es ! (i - 1)))"
    by (simp add: chained_def)
  show "index (es' ! i) = i \<and> previous_hash (es' ! i) = (if i = 0 then ''0'' else hash (es' ! (i - 1)))"
    using a b c by (auto simp: core_def)
qed

lemma chained_snoc:
  assumes "chained es" and "index e = length es"
      and "previous_hash e = (if length es > 0 then hash (last es) else ''0'')"
  shows "chained (es @ [e])"
  unfolding chained_def
proof (intro allI impI)
  fix i assume "i < length (es @ [e])"
  then consider "i < length es" | "i = length es" by fastforce
  then show "index ((es @ [e]) ! i) = i
     \<and> previous_hash ((es @ [e]) ! i) = (if i = 0 then ''0'' else hash ((es @ [e]) ! (i - 1)))"
  proof cases
    case 1
    then show ?thesis using assms(1) by (auto simp: chained_def nth_append)
  next
    case 2
    then show ?thesis using assms(2,3) by (auto simp: nth_append last_conv_nth)
  qed
qed

lemma addToken_immutable:
  "tok_immutable tok \<Longrightarrow>
   addToken now tok L =
     (let L2 = (if Suc (length (ledger L)) mod 100 = 0
                then snd (createMerkleRoot now (pushed now tok L)) else pushed now tok L)
      in Inr (last (ledger L2), L2))"
  by (simp add: addToken_def pushed_def Let_def)

lemma addToken_not_immutable:
  "\<not> tok_immutable tok \<Longrightarrow>
   addToken now tok L = Inl (Error ''Only immutable tokens can be added to ledger'')"
  by (simp add: addToken_def)

lemma addToken_Inr:
  assumes "addToken now tok L = Inr (e, L')"
  shows "tok_immutable tok"
    and "L' = (if Suc (length (ledger L)) mod 100 = 0
               then snd (createMerkleRoot now (pushed now tok L)) else pushed now tok L)"
proof -
  show imm: "tok_immutable tok"
    using assms by (cases "tok_immutable tok") (simp_all add: addToken_not_immutable)
  show "L' = (if Suc (length (ledger L)) mod 100 = 0
               then snd (createMerkleRoot now (pushed now tok L)) else pushed now tok L)"
    using assms unfolding addToken_immutable [OF imm] Let_def by simp
qed

lemma pushed_facts:
  "length (ledger (pushed now tok L)) = Suc (length (ledger L))"
  "merkleRoots (pushed now tok L) = merkleRoots L"
  "j < length (ledger L) \<Longrightarrow> ledger (pushed now tok L) ! j = ledger L ! j"
  "index (ledger (pushed now tok L) ! length (ledger L)) = length (ledger L)"
  "hash (ledger (pushed now tok L) ! length (ledger L)) = calculateHash tok"
  "\<not> sealed (ledger (pushed now tok L) ! length (ledger L))"
  "merkle_root (ledger (pushed now tok L) ! length (ledger L)) = None"
  by (simp_all add: pushed_def nth_append)

lemma pushed_chained: "chained (ledger L) \<Longrightarrow> chained (ledger (pushed now tok L))"
  unfolding pushed_def by (simp add: chained_snoc)

lemma addToken_length:
  assumes "addToken now tok L = Inr (e, L')"
  shows "length (ledger L') = Suc (length (ledger L))"
  using addToken_Inr(2) [OF assms] by (simp add: createMerkleRoot_length pushed_facts(1))

lemma addToken_chained:
  assumes "addToken now tok L = Inr (e, L')" and "chained (ledger L)"
  shows "chained (ledger L')"
proof (cases "Suc (length (ledger L)) mod 100 = 0")
  case False
  then show ?thesis using addToken_Inr(2) [OF assms(1)] pushed_chained [OF assms(2)] by simp
next
  case True
  let ?P = "pushed now tok L"
  have L': "L' = snd (createMerkleRoot now ?P)"
    using addToken_Inr(2) [OF assms(1)] True by simp
  show ?thesis
  proof (rule chained_core [of _ "ledger ?P"])
    show "length (ledger L') = length (ledger ?P)"
      by (simp add: L' createMerkleRoot_length)
    show "\<forall>i < length (ledger ?P). core (ledger L' ! i) = core (ledger ?P ! i)"
      by (simp add: L' createMerkleRoot_nth core_seal_entry)
    show "chained (ledger ?P)" by (rule pushed_chained [OF assms(2)])
  qed
qed

lemma addToken_hash:
  assumes "addToken now tok L = Inr (e, L')"
  shows "hash (ledger L' ! length (ledger L)) = calculateHash tok"
proof -
  let ?P = "pushed now tok L"
  have "core (ledger L' ! length (ledger L)) = core (ledger ?P ! length (ledger L))"
    using addToken_Inr(2) [OF assms]
    by (simp add: createMerkleRoot_nth core_seal_entry pushed_facts(1))
  then show ?thesis by (simp add: core_def pushed_facts(5))
qed

lemma seal_arith:
  fixes n :: nat
  assumes "Suc n mod 100 = 0"
  shows "Suc n = 100 * (n div 100) + 100" and "Suc n div 100 = Suc (n div 100)"
proof -
  from assms obtain q where q: "Suc n = 100 * q" by (auto simp: mod_eq_0_iff_dvd)
  then have "q > 0" by (cases q) auto
  then obtain p where p: "q = Suc p" by (cases q) auto
  from q p have n: "n = 100 * p + 99" by simp
  then have "n div 100 = p" by simp
  then show "Suc n = 100 * (n div 100) + 100" using n by simp
  show "Suc n div 100 = Suc (n div 100)" using q p \<open>n div 100 = p\<close> by simp
qed

lemma no_seal_arith:
  fixes n :: nat
  assumes "Suc n mod 100 \<noteq> 0"
  shows "Suc n div 100 = n div 100"
  using assms by (simp add: div_Suc)

lemma old_range:
  fixes i m n :: nat
  assumes "i < 100 * m" and "Suc n = 100 * m + 100"
  shows "i < n" and "\<not> (Suc n - 100 \<le> i)" and "i div 100 < m"
proof -
  show "i < n" using assms by linarith
  show "\<not> (Suc n - 100 \<le> i)" using assms by linarith
  show "i div 100 < m" using assms(1) by (simp add: div_less_iff_less_mult mult.commute)
qed

lemma new_range:
  fixes i m n :: nat
  assumes "\<not> i < 100 * m" and "i < Suc n" and "Suc n = 100 * m + 100"
  shows "Suc n - 100 \<le> i" and "i div 100 = m"
proof -
  show "Suc n - 100 \<le> i" using assms by linarith
  have "100 * m \<le> i" "i < 100 * m + 100" using assms by linarith+
  then have "m \<le> i div 100" "i div 100 < Suc m"
    by (simp_all add: less_eq_div_iff_mult_less_eq div_less_iff_less_mult mult.commute)
  then show "i div 100 = m" by linarith
qed

lemma sealed_upto_roots:
  assumes "sealed_upto L"
  shows "length (merkleRoots L) = length (ledger L) div 100"
proof -
  have "map range_of (merkleRoots L) = map full_range [0..<length (ledger L) div 100]"
    using assms by (simp add: sealed_upto_def Let_def)
  then have "length (map range_of (merkleRoots L))
             = length (map full_range [0..<length (ledger L) div 100])"
    by (rule arg_cong)
  then show ?thesis by simp
qed

lemma pushed_sealed_upto:
  assumes inv: "sealed_upto L" and nz: "Suc (length (ledger L)) mod 100 \<noteq> 0"
  shows "sealed_upto (pushed now tok L)"
proof -
  let ?n = "length (ledger L)"
  have d: "Suc ?n div 100 = ?n div 100" using nz by (rule no_seal_arith)
  have le: "100 * (?n div 100) \<le> ?n" by simp
  have "\<forall>i < Suc ?n. if i < 100 * (?n div 100)
          then sealed (ledger (pushed now tok L) ! i)
               \<and> merkle_root (ledger (pushed now tok L) ! i)
                   = Some (root_id (merkleRoots L ! (i div 100)))
          else \<not> sealed (ledger (pushed now tok L) ! i)
               \<and> merkle_root (ledger (pushed now tok L) ! i) = None"
  proof (intro allI impI)
    fix i assume "i < Suc ?n"
    then consider "i < ?n" | "i = ?n" by fastforce
    then show "if i < 100 * (?n div 100)
          then sealed (ledger (pushed now tok L) ! i)
               \<and> merkle_root (ledger (pushed now tok L) ! i)
                   = Some (root_id (merkleRoots L ! (i div 100)))
          else \<not> sealed (ledger (pushed now tok L) ! i)
               \<and> merkle_root (ledger (pushed now tok L) ! i) = None"
    proof cases
      case 1
      then show ?thesis using inv by (simp add: pushed_facts(3) sealed_upto_def Let_def)
    next
      case 2
      then show ?thesis using le by (simp add: pushed_facts(6,7))
    qed
  qed
  moreover have "map range_of (merkleRoots L) = map full_range [0..<?n div 100]"
    using inv by (simp add: sealed_upto_def Let_def)
  ultimately show ?thesis
    by (simp add: sealed_upto_def Let_def pushed_facts(1,2) d)
qed

lemma sealing_sealed_upto:
  assumes inv: "sealed_upto L" and z: "Suc (length (ledger L)) mod 100 = 0"
  shows "sealed_upto (snd (createMerkleRoot now (pushed now tok L)))"
proof -
  let ?n = "length (ledger L)"
  let ?m = "?n div 100"
  let ?P = "pushed now tok L"
  let ?L' = "snd (createMerkleRoot now ?P)"
  let ?r = "fst (createMerkleRoot now ?P)"
  have n: "Suc ?n = 100 * ?m + 100" using z by (rule seal_arith(1))
  have d: "Suc ?n div 100 = Suc ?m" using z by (rule seal_arith(2))
  have lenP: "length (ledger ?P) = Suc ?n" by (rule pushed_facts(1))
  have len: "length (ledger ?L') = Suc ?n" by (simp add: createMerkleRoot_length lenP)
  have roots: "merkleRoots ?L' = merkleRoots L @ [?r]"
    by (simp add: createMerkleRoot_roots pushed_facts(2))
  have nroots: "length (merkleRoots L) = ?m" by (rule sealed_upto_roots [OF inv])
  have "max 0 (int (Suc ?n) - 100) = int (100 * ?m)" "int (Suc ?n) - 1 = int (100 * ?m + 99)"
       "min 100 (Suc ?n) = 100"
    unfolding n by simp_all
  then have "range_of ?r = full_range ?m"
    by (simp only: range_of_def full_range_def createMerkleRoot_range lenP)
  moreover have "map range_of (merkleRoots L) = map full_range [0..<?m]"
    using inv by (simp add: sealed_upto_def Let_def)
  ultimately have ranges: "map range_of (merkleRoots ?L') = map full_range [0..<Suc ?m]"
    by (simp add: roots)
  have entries: "sealed (ledger ?L' ! i)
        \<and> merkle_root (ledger ?L' ! i) = Some (root_id (merkleRoots ?L' ! (i div 100)))"
    if i: "i < Suc ?n" for i
  proof (cases "i < 100 * ?m")
    case True
    have "i < ?n" and old: "\<not> (Suc ?n - 100 \<le> i)" and idx: "i div 100 < ?m"
      using old_range [OF True n] by blast+
    have "ledger ?L' ! i = ledger L ! i"
      using i old by (simp add: createMerkleRoot_nth lenP pushed_facts(3) \<open>i < ?n\<close>)
    moreover have "sealed (ledger L ! i)
        \<and> merkle_root (ledger L ! i) = Some (root_id (merkleRoots L ! (i div 100)))"
      using inv True \<open>i < ?n\<close> by (simp add: sealed_upto_def Let_def)
    ultimately show ?thesis using idx by (simp add: roots nth_append nroots)
  next
    case False
    have new: "Suc ?n - 100 \<le> i" and idx: "i div 100 = ?m"
      using new_range [OF False i n] by blast+
    have "ledger ?L' ! i = seal_entry (''MERKLE_'' @ number_string now) (ledger ?P ! i)"
      using i new by (simp add: createMerkleRoot_nth lenP)
    then show ?thesis
      by (simp add: seal_entry_def roots nth_append nroots idx createMerkleRoot_range(4))
  qed
  have "\<forall>i < Suc ?n. if i < 100 * Suc ?m
          then sealed (ledger ?L' ! i)
               \<and> merkle_root (ledger ?L' ! i) = Some (root_id (merkleRoots ?L' ! (i div 100)))
          else \<not> sealed (ledger ?L' ! i) \<and> merkle_root (ledger ?L' ! i) = None"
  proof (intro allI impI)
    fix i assume i: "i < Suc ?n"
    then have "i < 100 * Suc ?m" unfolding n by simp
    with entries [OF i] show "if i < 100 * Suc ?m
          then sealed (ledger ?L' ! i)
               \<and> merkle_root (ledger ?L' ! i) = Some (root_id (merkleRoots ?L' ! (i div 100)))
          else \<not> sealed (ledger ?L' ! i) \<and> merkle_root (ledger ?L' ! i) = None"
      by simp
  qed
  with ranges show ?thesis
    unfolding sealed_upto_def Let_def len d by blast
qed

lemma addToken_sealed_upto:
  assumes "addToken now tok L = Inr (e, L')" and "sealed_upto L"
  shows "sealed_upto L'"
  using addToken_Inr(2) [OF assms(1)] assms(2)
  by (simp add: pushed_sealed_upto sealing_sealed_upto)

lemma new_ledger_inv: "ledger_inv new_ImmutableLedger"
  by (simp add: ledger_inv_def chained_def sealed_upto_def new_ImmutableLedger_def)

lemma appends_Inr:
  "appends L xs = Inr L' \<Longrightarrow> ledger_inv L \<Longrightarrow>
   ledger_inv L' \<and> length (ledger L') = length (ledger L) + length xs"
proof (induction xs arbitrary: L)
  case Nil
  then show ?case by simp
next
  case (Cons x xs)
  obtain now tok where x: "x = (now, tok)" by (cases x)
  from Cons.prems(1) obtain e L1 where
    step: "addToken now tok L = Inr (e, L1)" and rest: "appends L1 xs = Inr L'"
    by (auto simp: x split: sum.splits)
  have "ledger_inv L1"
    using Cons.prems(2) addToken_chained [OF step] addToken_sealed_upto [OF step]
    by (simp add: ledger_inv_def)
  from Cons.IH [OF rest this] addToken_length [OF step] show ?case by simp
qed

lemma appends_total:
  "\<forall>x \<in> set xs. tok_immutable (snd x) \<Longrightarrow> \<exists>L'. appends L xs = Inr L'"
proof (induction xs arbitrary: L)
  case Nil
  then show ?case by simp
next
  case (Cons x xs)
  obtain now tok where x: "x = (now, tok)" by (cases x)
  have "tok_immutable tok" using Cons.prems by (simp add: x)
  then obtain e L1 where "addToken now tok L = Inr (e, L1)"
    by (simp add: addToken_immutable Let_def)
  moreover obtain L' where "appends L1 xs = Inr L'" using Cons.IH Cons.prems by auto
  ultimately show ?case by (simp add: x)
qed

lemma one_entry_ledger_appended:
  "appends new_ImmutableLedger [(1700000000000, demo_token)] = Inr one_entry_ledger"
proof -
  have fields: "tok_id demo_token = ''ALC_1700000000000_k3j9x''" "tok_type demo_token = ''ALC''"
    "tok_owner demo_token = ''alice''" "tok_value demo_token = 5" "tok_immutable demo_token"
    by (simp_all add: demo_token_def)
  show ?thesis
    by (simp add: addToken_def Let_def new_ImmutableLedger_def one_entry_ledger_def
                  fields demo_hash)
qed

text \<open>
  Claim C1: after any sequence of successful appends to a new ledger, the ledger holds one
  entry per append, the entry at position \<open>i\<close> has \<open>index = i\<close>, the first entry has
  \<open>previous_hash = '0'\<close> and every other entry has the \<open>hash\<close> of the entry before it as
  its \<open>previous_hash\<close>.
\<close>

theorem C1_chain:
  assumes "appends new_ImmutableLedger xs = Inr L"
  shows "length (ledger L) = length xs
       \<and> (\<forall>i < length (ledger L).
            index (ledger L ! i) = i
            \<and> previous_hash (ledger L ! i)
                = (if i = 0 then ''0'' else hash (ledger L ! (i - 1))))"
  using appends_Inr [OF assms new_ledger_inv]
  by (simp add: ledger_inv_def chained_def new_ImmutableLedger_def)

lemma two_tokens_immutable: "\<forall>x \<in> set two_tokens. tok_immutable (snd x)"
  by (simp add: two_tokens_def demo_token_def)

theorem C1_chain_witness:
  "appends new_ImmutableLedger two_tokens = Inr (projr (appends new_ImmutableLedger two_tokens))
   \<and> length (ledger (projr (appends new_ImmutableLedger two_tokens))) = 2
   \<and> index (ledger (projr (appends new_ImmutableLedger two_tokens)) ! 0) = 0
   \<and> previous_hash (ledger (projr (appends new_ImmutableLedger two_tokens)) ! 0) = ''0''
   \<and> index (ledger (projr (appends new_ImmutableLedger two_tokens)) ! 1) = 1
   \<and> previous_hash (ledger (projr (appends new_ImmutableLedger two_tokens)) ! 1)
       = hash (ledger (projr (appends new_ImmutableLedger two_tokens)) ! 0)"
proof -
  from appends_total [OF two_tokens_immutable, of new_ImmutableLedger]
  have h: "appends new_ImmutableLedger two_tokens
             = Inr (projr (appends new_ImmutableLedger two_tokens))"
    by auto
  have two: "length two_tokens = 2" by (simp add: two_tokens_def)
  from C1_chain [OF h] two h show ?thesis by simp
qed

text \<open>
  Claim C5: 250 appends of immutable tokens to a new ledger all succeed and leave exactly
  two Merkle roots, for the entries 0 to 99 and 100 to 199 (\<open>range_of\<close> gives
  \<open>batch_start\<close>, \<open>batch_end\<close> and \<open>batch_size\<close>); every entry below 200 is sealed and
  carries the id of the root of its range, and the entries 200 to 249 are not sealed and
  carry no root id.
\<close>

theorem C5_seals:
  assumes "length xs = 250" and "\<forall>x \<in> set xs. tok_immutable (snd x)"
  shows "\<exists>L. appends new_ImmutableLedger xs = Inr L
           \<and> length (ledger L) = 250
           \<and> map range_of (merkleRoots L) = [(0, 99, 100), (100, 199, 100)]
           \<and> (\<forall>i < 200. sealed (ledger L ! i)
                \<and> merkle_root (ledger L ! i) = Some (root_id (merkleRoots L ! (i div 100))))
           \<and> (\<forall>i. 200 \<le> i \<and> i < 250 \<longrightarrow>
                \<not> sealed (ledger L ! i) \<and> merkle_root (ledger L ! i) = None)"
proof -
  from appends_total [OF assms(2)] obtain L where L: "appends new_ImmutableLedger xs = Inr L"
    by blast
  from appends_Inr [OF L new_ledger_inv] assms(1)
  have len: "length (ledger L) = 250" and su: "sealed_upto L"
    by (simp_all add: ledger_inv_def new_ImmutableLedger_def)
  have two: "(250::nat) div 100 = 2" by simp
  from su have raw:
    "map range_of (merkleRoots L) = map full_range [0..<length (ledger L) div 100]
     \<and> (\<forall>i < length (ledger L). if i < 100 * (length (ledger L) div 100)
             then sealed (ledger L ! i)
                  \<and> merkle_root (ledger L ! i) = Some (root_id (merkleRoots L ! (i div 100)))
             else \<not> sealed (ledger L ! i) \<and> merkle_root (ledger L ! i) = None)"
    unfolding sealed_upto_def Let_def .
  have upt2: "[0..<2] = [0, Suc 0]" by (simp add: upt_rec)
  have "map range_of (merkleRoots L) = [full_range 0, full_range 1]"
    using conjunct1 [OF raw] unfolding len two upt2 by simp
  then have r: "map range_of (merkleRoots L) = [(0, 99, 100), (100, 199, 100)]"
    by (simp add: full_range_def)
  have e: "\<And>i. i < 250 \<Longrightarrow> if i < 200
             then sealed (ledger L ! i)
                  \<and> merkle_root (ledger L ! i) = Some (root_id (merkleRoots L ! (i div 100)))
             else \<not> sealed (ledger L ! i) \<and> merkle_root (ledger L ! i) = None"
    using conjunct2 [OF raw] unfolding len two by simp
  have e1: "\<forall>i < 200. sealed (ledger L ! i)
                \<and> merkle_root (ledger L ! i) = Some (root_id (merkleRoots L ! (i div 100)))"
  proof (intro allI impI)
    fix i :: nat assume "i < 200"
    then have "i < 250" by simp
    from e [OF this] \<open>i < 200\<close> show "sealed (ledger L ! i)
                \<and> merkle_root (ledger L ! i) = Some (root_id (merkleRoots L ! (i div 100)))"
      by simp
  qed
  have e2: "\<forall>i. 200 \<le> i \<and> i < 250 \<longrightarrow>
                \<not> sealed (ledger L ! i) \<and> merkle_root (ledger L ! i) = None"
  proof (intro allI impI)
    fix i :: nat assume a: "200 \<le> i \<and> i < 250"
    then have "\<not> i < 200" and "i < 250" by simp_all
    from e [OF this(2)] this(1) show "\<not> sealed (ledger L ! i) \<and> merkle_root (ledger L ! i) = None"
      by simp
  qed
  show ?thesis
  proof (intro exI conjI)
    show "appends new_ImmutableLedger xs = Inr L" by (rule L)
    show "length (ledger L) = 250" by (rule len)
    show "map range_of (merkleRoots L) = [(0, 99, 100), (100, 199, 100)]" by (rule r)
    show "\<forall>i < 200. sealed (ledger L ! i)
                \<and> merkle_root (ledger L ! i) = Some (root_id (merkleRoots L ! (i div 100)))"
      by (rule e1)
    show "\<forall>i. 200 \<le> i \<and> i < 250 \<longrightarrow>
                \<not> sealed (ledger L ! i) \<and> merkle_root (ledger L ! i) = None"
      by (rule e2)
  qed
qed

lemma replicate_immutable:
  "\<forall>x \<in> set (replicate 250 (0::int, demo_token)). tok_immutable (snd x)"
  by (simp add: demo_token_def)

theorem C5_seals_witness:
  "length (replicate 250 (0::int, demo_token)) = 250
   \<and> tok_immutable demo_token
   \<and> length (ledger (projr (appends new_ImmutableLedger (replicate 250 (0, demo_token))))) = 250
   \<and> map range_of (merkleRoots (projr (appends new_ImmutableLedger (replicate 250 (0, demo_token)))))
       = [(0, 99, 100), (100, 199, 100)]
   \<and> sealed (ledger (projr (appends new_ImmutableLedger (replicate 250 (0, demo_token)))) ! 199)
   \<and> \<not> sealed (ledger (projr (appends new_ImmutableLedger (replicate 250 (0, demo_token)))) ! 200)"
proof -
  have len: "length (replicate 250 (0::int, demo_token)) = 250" by simp
  have imm: "tok_immutable demo_token" by (simp add: demo_token_def)
  from C5_seals [OF len replicate_immutable]
  obtain L where all: "appends new_ImmutableLedger (replicate 250 (0, demo_token)) = Inr L
           \<and> length (ledger L) = 250
           \<and> map range_of (merkleRoots L) = [(0, 99, 100), (100, 199, 100)]
           \<and> (\<forall>i < 200. sealed (ledger L ! i)
                \<and> merkle_root (ledger L ! i) = Some (root_id (merkleRoots L ! (i div 100))))
           \<and> (\<forall>i. 200 \<le> i \<and> i < 250 \<longrightarrow>
                \<not> sealed (ledger L ! i) \<and> merkle_root (ledger L ! i) = None)" ..
  have p: "projr (appends new_ImmutableLedger (replicate 250 (0, demo_token))) = L"
    by (simp only: conjunct1 [OF all] sum.sel)
  have s: "(199::nat) < 200 \<longrightarrow> sealed (ledger L ! 199)
                \<and> merkle_root (ledger L ! 199) = Some (root_id (merkleRoots L ! (199 div 100)))"
    using conjunct1 [OF conjunct2 [OF conjunct2 [OF conjunct2 [OF all]]]] by (rule spec)
  have u: "(200::nat) \<le> 200 \<and> (200::nat) < 250 \<longrightarrow>
                \<not> sealed (ledger L ! 200) \<and> merkle_root (ledger L ! 200) = None"
    using conjunct2 [OF conjunct2 [OF conjunct2 [OF conjunct2 [OF all]]]] by (rule spec)
  have s1: "sealed (ledger L ! 199)" using s by simp
  have u1: "\<not> sealed (ledger L ! 200)" using u by simp
  show ?thesis
    unfolding p
    using len imm conjunct1 [OF conjunct2 [OF all]] conjunct1 [OF conjunct2 [OF conjunct2 [OF all]]]
          s1 u1
    by (intro conjI)
qed

lemma verify_loop_stop: "\<not> i < length es \<Longrightarrow> verify_loop i es res = res"
  by (subst verify_loop.simps) simp

lemma verify_loop_ok:
  "i < length es \<Longrightarrow> linked es i \<Longrightarrow>
   verify_loop i es res
     = verify_loop (Suc i) es (res\<lparr> verified_entries := verified_entries res + 1 \<rparr>)"
  by (subst verify_loop.simps) (simp add: Let_def linked_def)

lemma verify_loop_bad:
  "i < length es \<Longrightarrow> \<not> linked es i \<Longrightarrow>
   verify_loop i es res
     = verify_loop (Suc i) es
         (res\<lparr> valid := False, chain_errors := chain_errors res @ [broken_link es i] \<rparr>)"
  by (subst verify_loop.simps) (simp add: Let_def linked_def broken_link_def)

lemma verify_loop_fields:
  "length es - i = k \<Longrightarrow>
   valid (verify_loop i es res)
     = (valid res \<and> (\<forall>j. i \<le> j \<and> j < length es \<longrightarrow> linked es j))
   \<and> chain_errors (verify_loop i es res)
     = chain_errors res @ map (broken_link es) (filter (\<lambda>j. \<not> linked es j) [i..<length es])
   \<and> verified_entries (verify_loop i es res)
     = verified_entries res + length (filter (linked es) [i..<length es])
   \<and> total_entries (verify_loop i es res) = total_entries res"
proof (induction k arbitrary: i res)
  case 0
  then have stop: "\<not> i < length es" by simp
  have e: "[i..<length es] = []" using stop by simp
  have a: "(\<forall>j. i \<le> j \<and> j < length es \<longrightarrow> linked es j) = True" using stop by auto
  show ?case unfolding verify_loop_stop [OF stop] e a by simp
next
  case (Suc k)
  then have lt: "i < length es" and k: "length es - Suc i = k" by simp_all
  have upt: "[i..<length es] = i # [Suc i..<length es]"
    using lt by (simp add: upt_conv_Cons)
  have all: "(\<forall>j. i \<le> j \<and> j < length es \<longrightarrow> linked es j)
             = (linked es i \<and> (\<forall>j. Suc i \<le> j \<and> j < length es \<longrightarrow> linked es j))"
  proof (intro iffI conjI allI impI)
    assume h: "\<forall>j. i \<le> j \<and> j < length es \<longrightarrow> linked es j"
    show "linked es i" using h lt by simp
    fix j assume "Suc i \<le> j \<and> j < length es"
    then show "linked es j" using h by simp
  next
    fix j assume h: "linked es i \<and> (\<forall>j. Suc i \<le> j \<and> j < length es \<longrightarrow> linked es j)"
       and j: "i \<le> j \<and> j < length es"
    show "linked es j"
    proof (cases "j = i")
      case True
      then show ?thesis using h by simp
    next
      case False
      then have "Suc i \<le> j" using j by simp
      then show ?thesis using h j by simp
    qed
  qed
  show ?case
  proof (cases "linked es i")
    case True
    show ?thesis
      unfolding verify_loop_ok [OF lt True] upt all
      using Suc.IH [OF k, of "res\<lparr> verified_entries := verified_entries res + 1 \<rparr>"] True
      by simp
  next
    case False
    show ?thesis
      unfolding verify_loop_bad [OF lt False] upt all
      using Suc.IH [OF k, of "res\<lparr> valid := False,
                                  chain_errors := chain_errors res @ [broken_link es i] \<rparr>"] False
      by simp
  qed
qed

text \<open>
  Claim C2: \<open>verifyIntegrity\<close> returns \<open>valid = true\<close> exactly when every entry after the
  first has the \<open>hash\<close> of its predecessor as \<open>previous_hash\<close>. Its \<open>errors\<close> list holds,
  in index order, one record for every broken link of the whole ledger, with the index, the
  expected hash and the actual one; the links that hold are counted in \<open>verified_entries\<close>.
\<close>

theorem C2_verifyIntegrity:
  "(valid (verifyIntegrity L) \<longleftrightarrow>
      (\<forall>i. 0 < i \<and> i < length (ledger L) \<longrightarrow>
           previous_hash (ledger L ! i) = hash (ledger L ! (i - 1))))
   \<and> chain_errors (verifyIntegrity L)
       = map (\<lambda>i. \<lparr> ce_index = i, ce_error = ''Hash chain broken'',
                     expected = hash (ledger L ! (i - 1)),
                     actual = previous_hash (ledger L ! i) \<rparr>)
           (filter (\<lambda>i. previous_hash (ledger L ! i) \<noteq> hash (ledger L ! (i - 1)))
              [1..<length (ledger L)])
   \<and> verified_entries (verifyIntegrity L)
       = length (filter (\<lambda>i. previous_hash (ledger L ! i) = hash (ledger L ! (i - 1)))
           [1..<length (ledger L)])
   \<and> total_entries (verifyIntegrity L) = length (ledger L)"
proof -
  have a: "(\<forall>j. 1 \<le> j \<and> j < length (ledger L) \<longrightarrow> linked (ledger L) j)
           = (\<forall>i. 0 < i \<and> i < length (ledger L) \<longrightarrow>
                previous_hash (ledger L ! i) = hash (ledger L ! (i - 1)))"
    by (auto simp: linked_def Suc_le_eq)
  show ?thesis
    unfolding verifyIntegrity_def
    using verify_loop_fields [OF refl, where es = "ledger L" and i = 1 and res =
        "\<lparr> valid = True, total_entries = length (ledger L), verified_entries = 0,
           chain_errors = [] \<rparr>"]
    unfolding a
    by (simp add: linked_def [abs_def] broken_link_def [abs_def])
qed

lemma upt_1_5: "[1..<5] = [1, 2, 3, 4::nat]"
  by (simp add: upt_rec)

theorem C2_verifyIntegrity_witness:
  "\<not> valid (verifyIntegrity broken_ledger)
   \<and> chain_errors (verifyIntegrity broken_ledger)
       = [\<lparr> ce_index = 2, ce_error = ''Hash chain broken'', expected = ''h1'', actual = ''zz'' \<rparr>,
          \<lparr> ce_index = 4, ce_error = ''Hash chain broken'', expected = ''h3'', actual = ''yy'' \<rparr>]
   \<and> verified_entries (verifyIntegrity broken_ledger) = 2"
proof -
  have len: "length (ledger broken_ledger) = 5" by (simp add: broken_ledger_def)
  have bad: "0 < (2::nat) \<and> 2 < length (ledger broken_ledger)
        \<and> previous_hash (ledger broken_ledger ! 2) \<noteq> hash (ledger broken_ledger ! (2 - 1))"
    by (simp add: broken_ledger_def demo_entry_def)
  from C2_verifyIntegrity [of broken_ledger] bad
  have "\<not> valid (verifyIntegrity broken_ledger)" by blast
  moreover from C2_verifyIntegrity [of broken_ledger]
  have "chain_errors (verifyIntegrity broken_ledger)
       = [\<lparr> ce_index = 2, ce_error = ''Hash chain broken'', expected = ''h1'', actual = ''zz'' \<rparr>,
          \<lparr> ce_index = 4, ce_error = ''Hash chain broken'', expected = ''h3'', actual = ''yy'' \<rparr>]
       \<and> verified_entries (verifyIntegrity broken_ledger) = 2"
    unfolding len upt_1_5 by (simp add: broken_ledger_def demo_entry_def)
  ultimately show ?thesis by simp
qed

lemma inj_full_range: "inj full_range"
  by (auto simp: inj_on_def full_range_def)

lemma createMerkleRoot_twice:
  "merkleRoots (snd (createMerkleRoot t2 (snd (createMerkleRoot t1 L))))
     = merkleRoots L @ [fst (createMerkleRoot t1 L),
                        fst (createMerkleRoot t2 (snd (createMerkleRoot t1 L)))]"
  "range_of (fst (createMerkleRoot t2 (snd (createMerkleRoot t1 L))))
     = range_of (fst (createMerkleRoot t1 L))"
  by (simp_all add: createMerkleRoot_roots range_of_def createMerkleRoot_range
                    createMerkleRoot_length)

text \<open>
  Claim C6, amended: \<open>createMerkleRoot\<close> makes no check of its own. Each call appends one
  Merkle root for the last (up to) 100 entries, so two calls at the same ledger length
  append two roots with the same range. \<open>addToken\<close> calls it once, when the length reaches a
  multiple of 100: in a ledger built by appends from a new one, the ranges of the roots are
  the full ranges \<open>[100k, 100k + 99]\<close> below the length, each exactly once.
\<close>

theorem C6_sealing:
  "merkleRoots (snd (createMerkleRoot t2 (snd (createMerkleRoot t1 L))))
     = merkleRoots L @ [fst (createMerkleRoot t1 L),
                        fst (createMerkleRoot t2 (snd (createMerkleRoot t1 L)))]
   \<and> range_of (fst (createMerkleRoot t2 (snd (createMerkleRoot t1 L))))
     = range_of (fst (createMerkleRoot t1 L))
   \<and> (appends new_ImmutableLedger xs = Inr L' \<longrightarrow>
        map range_of (merkleRoots L') = map full_range [0..<length xs div 100]
        \<and> distinct (map range_of (merkleRoots L')))"
proof -
  have built: "map range_of (merkleRoots L') = map full_range [0..<length xs div 100]
        \<and> distinct (map range_of (merkleRoots L'))"
    if a: "appends new_ImmutableLedger xs = Inr L'"
  proof -
    from appends_Inr [OF a new_ledger_inv]
    have su: "sealed_upto L'" and len: "length (ledger L') = length xs"
      by (simp_all add: ledger_inv_def new_ImmutableLedger_def)
    have r: "map range_of (merkleRoots L') = map full_range [0..<length xs div 100]"
      using su unfolding sealed_upto_def Let_def len by (rule conjunct1)
    have "distinct (map full_range [0..<length xs div 100])"
      by (simp add: distinct_map inj_on_subset [OF inj_full_range])
    with r show ?thesis by simp
  qed
  show ?thesis
  proof (intro conjI impI)
    show "merkleRoots (snd (createMerkleRoot t2 (snd (createMerkleRoot t1 L))))
       = merkleRoots L @ [fst (createMerkleRoot t1 L),
                          fst (createMerkleRoot t2 (snd (createMerkleRoot t1 L)))]"
      by (rule createMerkleRoot_twice(1))
    show "range_of (fst (createMerkleRoot t2 (snd (createMerkleRoot t1 L))))
       = range_of (fst (createMerkleRoot t1 L))"
      by (rule createMerkleRoot_twice(2))
  next
    assume a: "appends new_ImmutableLedger xs = Inr L'"
    show "map range_of (merkleRoots L') = map full_range [0..<length xs div 100]"
      by (rule conjunct1 [OF built [OF a]])
    show "distinct (map range_of (merkleRoots L'))"
      by (rule conjunct2 [OF built [OF a]])
  qed
qed

theorem C6_sealing_witness:
  "map range_of (merkleRoots (snd (createMerkleRoot 2 (snd (createMerkleRoot 1 one_entry_ledger)))))
     = [range_of (fst (createMerkleRoot 1 one_entry_ledger)),
        range_of (fst (createMerkleRoot 1 one_entry_ledger))]
   \<and> appends new_ImmutableLedger two_tokens = Inr (projr (appends new_ImmutableLedger two_tokens))
   \<and> map range_of (merkleRoots (projr (appends new_ImmutableLedger two_tokens))) = []"
proof -
  from appends_total [OF two_tokens_immutable, of new_ImmutableLedger]
  have h: "appends new_ImmutableLedger two_tokens
             = Inr (projr (appends new_ImmutableLedger two_tokens))"
    by auto
  have two: "length two_tokens = 2" by (simp add: two_tokens_def)
  from C6_sealing [of 2 1 one_entry_ledger two_tokens "projr (appends new_ImmutableLedger two_tokens)"]
       h two
  show ?thesis by (simp add: one_entry_ledger_def)
qed

text \<open>
  Claim C6, as stated, fails: on the ledger that holds one appended token, two calls of
  \<open>createMerkleRoot\<close> leave two Merkle roots, both for the range \<open>[0, 0]\<close>.
\<close>

theorem C6_counterexample:
  "map range_of (merkleRoots (snd (createMerkleRoot 2 (snd (createMerkleRoot 1 one_entry_ledger)))))
     = [(0, 0, 1), (0, 0, 1)]"
  by (simp add: createMerkleRoot_roots range_of_def createMerkleRoot_range
                createMerkleRoot_length one_entry_ledger_def)

section \<open>Properties of the batch processor\<close>

lemma length_outcomes: "length (outcomes m f c rs) = length rs"
  by (induction rs arbitrary: c) (auto split: prod.splits)

lemma batch_loop_outcomes:
  "fst (batch_loop m f i rs res c)
     = res\<lparr> tokens := tokens res @ successes (outcomes m f c rs),
            errors := errors res @ failures i rs (outcomes m f c rs) \<rparr>"
proof (induction rs arbitrary: i res c)
  case Nil
  show ?case by simp
next
  case (Cons r rs)
  obtain out c' where p: "process_item m f c r = (out, c')" by (cases "process_item m f c r")
  show ?case
  proof (cases out)
    case (Inl msg)
    then show ?thesis using p Cons.IH by simp
  next
    case (Inr t)
    then show ?thesis using p Cons.IH by simp
  qed
qed

lemma all_succeed:
  "length rs = length outs \<Longrightarrow> \<forall>j < length outs. \<exists>t. outs ! j = Inr t \<Longrightarrow>
   failures i rs outs = [] \<and> length (successes outs) = length outs"
proof (induction outs arbitrary: i rs)
  case Nil
  then show ?case by simp
next
  case (Cons out outs)
  then obtain r rest where rs: "rs = r # rest" by (cases rs) auto
  from Cons.prems(2) obtain t where out: "out = Inr t" by fastforce
  have "\<forall>j < length outs. \<exists>t. outs ! j = Inr t" using Cons.prems(2) by fastforce
  from Cons.IH [OF _ this, of rest "Suc i"] Cons.prems(1) show ?case by (simp add: rs out)
qed

lemma one_fails:
  "length rs = length outs \<Longrightarrow> k < length outs \<Longrightarrow> outs ! k = Inl msg \<Longrightarrow>
   \<forall>j < length outs. j \<noteq> k \<longrightarrow> (\<exists>t. outs ! j = Inr t) \<Longrightarrow>
   failures i rs outs = [\<lparr> err_index = i + k, err_request = rs ! k, err_message = msg \<rparr>]
   \<and> length (successes outs) = length outs - 1"
proof (induction outs arbitrary: i rs k)
  case Nil
  then show ?case by simp
next
  case (Cons out outs)
  then obtain r rest where rs: "rs = r # rest" by (cases rs) auto
  have len: "length rest = length outs" using Cons.prems(1) by (simp add: rs)
  show ?case
  proof (cases k)
    case 0
    then have out: "out = Inl msg" using Cons.prems(3) by simp
    have "\<forall>j < length outs. \<exists>t. outs ! j = Inr t"
    proof (intro allI impI)
      fix j assume "j < length outs"
      then have "Suc j < length (out # outs)" "Suc j \<noteq> k" using 0 by simp_all
      with Cons.prems(4) have "\<exists>t. (out # outs) ! Suc j = Inr t" by blast
      then show "\<exists>t. outs ! j = Inr t" by simp
    qed
    from all_succeed [OF len this, of "Suc i"] show ?thesis by (simp add: rs out 0)
  next
    case (Suc k')
    have "0 < length (out # outs)" "0 \<noteq> k" using Suc by simp_all
    with Cons.prems(4) have "\<exists>t. (out # outs) ! 0 = Inr t" by blast
    then obtain t where out: "out = Inr t" by auto
    have k': "k' < length outs" "outs ! k' = Inl msg" using Cons.prems(2,3) Suc by simp_all
    have "\<forall>j < length outs. j \<noteq> k' \<longrightarrow> (\<exists>t. outs ! j = Inr t)"
    proof (intro allI impI)
      fix j assume "j < length outs" "j \<noteq> k'"
      then have "Suc j < length (out # outs)" "Suc j \<noteq> k" using Suc by simp_all
      with Cons.prems(4) have "\<exists>t. (out # outs) ! Suc j = Inr t" by blast
      then show "\<exists>t. outs ! j = Inr t" by simp
    qed
    from Cons.IH [OF len k' this, of "Suc i"] k'(1) show ?thesis
      by (simp add: rs out Suc)
  qed
qed

lemma enqueue_all_facts:
  "queue (enqueue_all s reqs) = queue s @ map queued_of reqs
   \<and> processing (enqueue_all s reqs) = processing s
   \<and> maxBatchSize (enqueue_all s reqs) = maxBatchSize s
   \<and> batchHistory (enqueue_all s reqs) = batchHistory s"
  unfolding enqueue_all_def
proof (induction reqs arbitrary: s)
  case Nil
  show ?case by simp
next
  case (Cons x reqs)
  obtain now req where x: "x = (now, req)" by (cases x)
  show ?case
    using Cons.IH [of "snd (addToQueue now req s)"]
    by (simp add: x addToQueue_def Let_def queued_of_def)
qed

lemma startBatch_busy:
  "processing s \<Longrightarrow> startBatch bid now bs s = (Inl (BatchError ''Batch already processing''), s)"
  by (simp add: startBatch_def)

lemma processBatch_busy:
  "processing s \<Longrightarrow>
   processBatch m f bid now bs (s, c) = (BatchError ''Batch already processing'', s, c)"
  by (simp add: processBatch_def startBatch_busy)

lemma processBatch_runs:
  assumes "\<not> processing s" and "batch_size_of bs s \<noteq> 0"
  shows "fst (processBatch m f bid now bs (s, c))
           = BatchResults
               \<lparr> batch_id = bid, res_timestamp = now, res_size = batch_size_of bs s,
                 tokens = successes (outcomes m f c (take (nat (batch_size_of bs s)) (queue s))),
                 errors = failures 0 (take (nat (batch_size_of bs s)) (queue s))
                            (outcomes m f c (take (nat (batch_size_of bs s)) (queue s))) \<rparr>"
    and "queue (fst (snd (processBatch m f bid now bs (s, c))))
           = drop (nat (batch_size_of bs s)) (queue s)"
    and "\<not> processing (fst (snd (processBatch m f bid now bs (s, c))))"
    and "snd (snd (processBatch m f bid now bs (s, c)))
           = snd (batch_loop m f 0 (take (nat (batch_size_of bs s)) (queue s))
                    \<lparr> batch_id = bid, res_timestamp = now, res_size = batch_size_of bs s,
                      tokens = [], errors = [] \<rparr> c)"
proof -
  let ?batch = "take (nat (batch_size_of bs s)) (queue s)"
  let ?r0 = "\<lparr> batch_id = bid, res_timestamp = now, res_size = batch_size_of bs s,
               tokens = [], errors = [] \<rparr> :: 'a batch_results"
  obtain r c' where loop: "batch_loop m f 0 ?batch ?r0 c = (r, c')"
    by (cases "batch_loop m f 0 ?batch ?r0 c")
  have r: "r = ?r0\<lparr> tokens := tokens ?r0 @ successes (outcomes m f c ?batch),
                    errors := errors ?r0 @ failures 0 ?batch (outcomes m f c ?batch) \<rparr>"
    using batch_loop_outcomes [of m f 0 ?batch ?r0 c] loop by simp
  have pb: "processBatch m f bid now bs (s, c)
        = (BatchResults r,
           s\<lparr> processing := True, queue := drop (nat (batch_size_of bs s)) (queue s),
              processing := False,
              batchHistory :=
                (if length (batchHistory s @ [r]) > 50
                 then slice_last 50 (batchHistory s @ [r]) else batchHistory s @ [r]) \<rparr>, c')"
    using assms loop by (simp add: processBatch_def startBatch_def finishBatch_def Let_def)
  show "fst (processBatch m f bid now bs (s, c))
           = BatchResults
               \<lparr> batch_id = bid, res_timestamp = now, res_size = batch_size_of bs s,
                 tokens = successes (outcomes m f c ?batch),
                 errors = failures 0 ?batch (outcomes m f c ?batch) \<rparr>"
    unfolding pb r by simp
  show "queue (fst (snd (processBatch m f bid now bs (s, c))))
           = drop (nat (batch_size_of bs s)) (queue s)"
    unfolding pb by simp
  show "\<not> processing (fst (snd (processBatch m f bid now bs (s, c))))"
    unfolding pb by simp
  show "snd (snd (processBatch m f bid now bs (s, c))) = snd (batch_loop m f 0 ?batch ?r0 c)"
    unfolding pb loop by simp
qed

text \<open>
  Claim C8: while \<open>processing\<close> is true, \<open>processBatch\<close> returns the error
  \<open>'Batch already processing'\<close> and leaves the processor and the collaborators as they
  were: nothing leaves the queue, no batch is recorded, no item is processed.
  \<open>autoProcess\<close>, which goes through \<open>processBatch\<close>, changes nothing and returns no
  batch results either.
\<close>

theorem C8_one_in_flight:
  "processing s \<Longrightarrow>
   processBatch m f bid now bs (s, c) = (BatchError ''Batch already processing'', s, c)
   \<and> snd (autoProcess m f bid now (s, c)) = (s, c)
   \<and> (\<forall>r. fst (autoProcess m f bid now (s, c)) \<noteq> BatchResults r)"
  by (simp add: processBatch_busy autoProcess_def)

lemma busy_processor_processing: "processing busy_processor"
  by (simp add: busy_processor_def startBatch_def addToQueue_def new_BatchProcessor_def
                batch_size_of_def Let_def)

theorem C8_one_in_flight_witness:
  "processing busy_processor
   \<and> processBatch minting rejecting ''BATCH_2'' 20 (Some 10) (busy_processor, ())
       = (BatchError ''Batch already processing'', busy_processor, ())"
  using C8_one_in_flight [OF busy_processor_processing,
                          of minting rejecting "''BATCH_2''" 20 "Some 10" "()"]
        busy_processor_processing
  by simp

lemma item_step_process:
  "item_step m f c r out c' \<Longrightarrow> process_item m f c r = (out, c')"
  by (auto simp: item_step_def process_item_def split: sum.splits if_splits)

lemma batch_loop_state:
  "snd (batch_loop m f i rs res c) = snd (batch_loop m f i' rs res' c)"
proof (induction rs arbitrary: i i' res res' c)
  case Nil
  show ?case by simp
next
  case (Cons r rs)
  obtain out c' where p: "process_item m f c r = (out, c')" by (cases "process_item m f c r")
  show ?case
  proof (cases out)
    case (Inl msg)
    then show ?thesis using p Cons.IH by simp
  next
    case (Inr t)
    then show ?thesis using p Cons.IH by simp
  qed
qed

lemma trace_run:
  "length cs = Suc (length rs) \<Longrightarrow>
   \<forall>j < length rs. item_step m f (cs ! j) (rs ! j) (g (i + j)) (cs ! Suc j) \<Longrightarrow>
   outcomes m f (cs ! 0) rs = map g [i..<i + length rs]
   \<and> snd (batch_loop m f i rs res (cs ! 0)) = cs ! length rs"
proof (induction rs arbitrary: cs i res)
  case Nil
  show ?case by simp
next
  case (Cons r rs)
  from Cons.prems(1) obtain c0 cs1 where cs: "cs = c0 # cs1" by (cases cs) auto
  have len: "length cs1 = Suc (length rs)" using Cons.prems(1) by (simp add: cs)
  have "item_step m f (cs ! 0) ((r # rs) ! 0) (g (i + 0)) (cs ! Suc 0)"
    using Cons.prems(2) by blast
  then have first: "process_item m f c0 r = (g i, cs1 ! 0)"
    using item_step_process [of m f c0 r "g i" "cs1 ! 0"] by (simp add: cs)
  have rest: "\<forall>j < length rs. item_step m f (cs1 ! j) (rs ! j) (g (Suc i + j)) (cs1 ! Suc j)"
  proof (intro allI impI)
    fix j assume "j < length rs"
    then have "Suc j < length (r # rs)" by simp
    with Cons.prems(2)
    have "item_step m f (cs ! Suc j) ((r # rs) ! Suc j) (g (i + Suc j)) (cs ! Suc (Suc j))"
      by blast
    then show "item_step m f (cs1 ! j) (rs ! j) (g (Suc i + j)) (cs1 ! Suc j)"
      by (simp add: cs)
  qed
  have e: "i + length (r # rs) = Suc i + length rs" by simp
  have upt: "[i..<i + length (r # rs)] = i # [Suc i..<Suc i + length rs]"
    unfolding e by (rule upt_conv_Cons) simp
  have a: "outcomes m f (cs ! 0) (r # rs) = map g [i..<i + length (r # rs)]"
    unfolding upt using Cons.IH [OF len rest] first by (simp add: cs)
  have "snd (batch_loop m f i (r # rs) res (cs ! 0)) = cs1 ! length rs"
  proof (cases "g i")
    case (Inl msg)
    then show ?thesis using Cons.IH [OF len rest] first by (simp add: cs)
  next
    case (Inr t)
    then show ?thesis using Cons.IH [OF len rest] first by (simp add: cs)
  qed
  with a show ?case by (simp add: cs)
qed

lemma successes_map:
  "successes (map g js)
     = List.map_filter (\<lambda>j. case g j of Inr t \<Rightarrow> Some t | Inl msg \<Rightarrow> None) js"
proof (induction js)
  case Nil
  show ?case by (simp add: map_filter_simps)
next
  case (Cons j js)
  then show ?case by (cases "g j") (simp_all add: map_filter_simps)
qed

lemma failures_map:
  "failures i rs (map g [i..<i + length rs])
     = List.map_filter
         (\<lambda>(j, r). case g j of
                      Inl msg \<Rightarrow> Some \<lparr> err_index = j, err_request = r, err_message = msg \<rparr>
                    | Inr t \<Rightarrow> None)
         (zip [i..<i + length rs] rs)"
proof (induction rs arbitrary: i)
  case Nil
  show ?case by (simp add: map_filter_simps)
next
  case (Cons r rs)
  have e: "i + length (r # rs) = Suc i + length rs" by simp
  have upt: "[i..<i + length (r # rs)] = i # [Suc i..<Suc i + length rs]"
    unfolding e by (rule upt_conv_Cons) simp
  show ?case
    unfolding upt using Cons.IH [of "Suc i"]
    by (cases "g i") (simp_all add: map_filter_simps)
qed

text \<open>
  Claim C7: a batch that starts (no batch in flight, size not 0) takes its items from the
  front of the queue and runs every one of them, in order, through its collaborator:
  \<open>alcMinter.mint\<close> for type \<open>'ALC'\<close> or no type, \<open>tokenFactory.createToken\<close> otherwise.
  Let item \<open>j\<close> be run on the collaborator state \<open>cs ! j\<close> that the items before it left,
  and let \<open>g j\<close> be what its collaborator gives there: a token (\<open>mint\<close> resolves with
  success, \<open>createToken\<close> returns) or the message of a failure (\<open>mint\<close> resolves without
  success or throws, \<open>createToken\<close> throws). Then \<open>tokens\<close> holds the tokens in item order,
  \<open>errors\<close> holds one record per failure with the index of the item in the batch, the
  request and the message, and every later item is still run: the collaborators end in the
  state the last item left. In particular, after 12 requests are enqueued on a new processor,
  a batch of 10 in which the item at position \<open>k\<close> fails and the nine others succeed
  returns 9 tokens and the one failure, and leaves 2 requests in the queue.
\<close>

theorem C7_processBatch:
  assumes idle: "\<not> processing s"
      and size: "batch_size_of bs s \<noteq> 0"
      and batch: "batch = take (nat (batch_size_of bs s)) (queue s)"
      and states: "length cs = Suc (length batch)"
      and items:
        "\<forall>j < length batch.
           if req_type (q_request (batch ! j)) \<in> {Some ''ALC'', None, Some []}
           then (case g j of
                   Inr t \<Rightarrow> m (cs ! j) (batch ! j) = (MintSuccess t, cs ! Suc j)
                 | Inl msg \<Rightarrow> m (cs ! j) (batch ! j) = (MintFailure msg, cs ! Suc j)
                              \<or> m (cs ! j) (batch ! j) = (MintThrew msg, cs ! Suc j))
           else f (cs ! j) (batch ! j) = (g j, cs ! Suc j)"
      and ret: "ret = processBatch m f bid now bs (s, cs ! 0)"
  shows "fst ret =
           BatchResults
             \<lparr> batch_id = bid, res_timestamp = now, res_size = batch_size_of bs s,
               tokens = List.map_filter
                          (\<lambda>j. case g j of Inr t \<Rightarrow> Some t | Inl msg \<Rightarrow> None)
                          [0..<length batch],
               errors = List.map_filter
                          (\<lambda>(j, r). case g j of
                                       Inl msg \<Rightarrow> Some \<lparr> err_index = j, err_request = r,
                                                          err_message = msg \<rparr>
                                     | Inr t \<Rightarrow> None)
                          (zip [0..<length batch] batch) \<rparr>
       \<and> snd (snd ret) = cs ! length batch
       \<and> queue (fst (snd ret)) = drop (nat (batch_size_of bs s)) (queue s)
       \<and> \<not> processing (fst (snd ret))
       \<and> (s = enqueue_all new_BatchProcessor reqs \<and> length reqs = 12 \<and> bs = Some 10
            \<and> k < 10 \<and> g k = Inl reason \<and> (\<forall>j < 10. j \<noteq> k \<longrightarrow> (\<exists>t. g j = Inr t))
          \<longrightarrow> (\<exists>r. fst ret = BatchResults r \<and> length (tokens r) = 9 \<and> length (errors r) = 1
                   \<and> errors r = [\<lparr> err_index = k, err_request = queued_of (reqs ! k),
                                    err_message = reason \<rparr>])
              \<and> length (queue (fst (snd ret))) = 2)"
proof -
  let ?n = "length batch"
  have steps: "\<forall>j < ?n. item_step m f (cs ! j) (batch ! j) (g (0 + j)) (cs ! Suc j)"
    using items by (simp add: item_step_def)
  have outs: "outcomes m f (cs ! 0) batch = map g [0..<?n]"
    using trace_run [OF states steps] by simp
  have final: "snd (batch_loop m f 0 batch res (cs ! 0)) = cs ! ?n" for res
    using trace_run [OF states steps, of res] by simp
  note run = processBatch_runs [OF idle size, of m f bid now "cs ! 0", folded batch ret]
  have toks: "successes (map g [0..<?n])
        = List.map_filter (\<lambda>j. case g j of Inr t \<Rightarrow> Some t | Inl msg \<Rightarrow> None) [0..<?n]"
    by (rule successes_map)
  have errs: "failures 0 batch (map g [0..<?n])
        = List.map_filter
            (\<lambda>(j, r). case g j of
                         Inl msg \<Rightarrow> Some \<lparr> err_index = j, err_request = r, err_message = msg \<rparr>
                       | Inr t \<Rightarrow> None)
            (zip [0..<?n] batch)"
    using failures_map [of 0 batch g] by simp
  have result: "fst ret =
           BatchResults
             \<lparr> batch_id = bid, res_timestamp = now, res_size = batch_size_of bs s,
               tokens = List.map_filter
                          (\<lambda>j. case g j of Inr t \<Rightarrow> Some t | Inl msg \<Rightarrow> None) [0..<?n],
               errors = List.map_filter
                          (\<lambda>(j, r). case g j of
                                       Inl msg \<Rightarrow> Some \<lparr> err_index = j, err_request = r,
                                                          err_message = msg \<rparr>
                                     | Inr t \<Rightarrow> None)
                          (zip [0..<?n] batch) \<rparr>"
    using run(1) unfolding outs toks errs .
  have state: "snd (snd ret) = cs ! ?n"
    unfolding run(4) by (rule final)
  have scenario: "(\<exists>r. fst ret = BatchResults r \<and> length (tokens r) = 9 \<and> length (errors r) = 1
                   \<and> errors r = [\<lparr> err_index = k, err_request = queued_of (reqs ! k),
                                    err_message = reason \<rparr>])
              \<and> length (queue (fst (snd ret))) = 2"
    if a: "s = enqueue_all new_BatchProcessor reqs \<and> length reqs = 12 \<and> bs = Some 10
            \<and> k < 10 \<and> g k = Inl reason \<and> (\<forall>j < 10. j \<noteq> k \<longrightarrow> (\<exists>t. g j = Inr t))"
  proof -
    note se = conjunct1 [OF a]
    note lr = conjunct1 [OF conjunct2 [OF a]]
    note b10 = conjunct1 [OF conjunct2 [OF conjunct2 [OF a]]]
    note k10 = conjunct1 [OF conjunct2 [OF conjunct2 [OF conjunct2 [OF a]]]]
    note gk = conjunct1 [OF conjunct2 [OF conjunct2 [OF conjunct2 [OF conjunct2 [OF a]]]]]
    note go = conjunct2 [OF conjunct2 [OF conjunct2 [OF conjunct2 [OF conjunct2 [OF a]]]]]
    have "queue (enqueue_all new_BatchProcessor reqs) = map queued_of reqs"
      using enqueue_all_facts [of new_BatchProcessor reqs]
      by (simp add: new_BatchProcessor_def)
    then have q: "queue s = map queued_of reqs" by (simp only: se)
    have lq: "length (queue s) = 12" by (simp add: q lr)
    have sz: "batch_size_of bs s = 10" by (simp add: batch_size_of_def lq b10)
    have n: "?n = 10" by (simp add: batch sz lq)
    have len: "length batch = length (map g [0..<?n])" by simp
    have k: "k < length (map g [0..<?n])" using k10 by (simp add: n)
    have fails: "map g [0..<?n] ! k = Inl reason" using k10 gk by (simp add: n)
    have others: "\<forall>j < length (map g [0..<?n]). j \<noteq> k \<longrightarrow> (\<exists>t. map g [0..<?n] ! j = Inr t)"
      using go by (simp add: n)
    from one_fails [OF len k fails others, of 0]
    have f1: "failures 0 batch (map g [0..<?n])
               = [\<lparr> err_index = k, err_request = batch ! k, err_message = reason \<rparr>]"
      and t9: "length (successes (map g [0..<?n])) = 9"
      by (simp_all add: n)
    have bk: "batch ! k = queued_of (reqs ! k)"
      using k10 by (simp add: batch sz q lr)
    have "fst ret = BatchResults
             \<lparr> batch_id = bid, res_timestamp = now, res_size = batch_size_of bs s,
               tokens = successes (map g [0..<?n]),
               errors = [\<lparr> err_index = k, err_request = queued_of (reqs ! k),
                           err_message = reason \<rparr>] \<rparr>"
      using run(1) unfolding outs f1 bk .
    then have "\<exists>r. fst ret = BatchResults r \<and> length (tokens r) = 9 \<and> length (errors r) = 1
                   \<and> errors r = [\<lparr> err_index = k, err_request = queued_of (reqs ! k),
                                    err_message = reason \<rparr>]"
      using t9 by simp
    moreover have "length (queue (fst (snd ret))) = 2"
      unfolding run(2) by (simp add: sz lq)
    ultimately show ?thesis by (rule conjI)
  qed
  show ?thesis
  proof (intro conjI impI)
    show "fst ret =
           BatchResults
             \<lparr> batch_id = bid, res_timestamp = now, res_size = batch_size_of bs s,
               tokens = List.map_filter
                          (\<lambda>j. case g j of Inr t \<Rightarrow> Some t | Inl msg \<Rightarrow> None) [0..<?n],
               errors = List.map_filter
                          (\<lambda>(j, r). case g j of
                                       Inl msg \<Rightarrow> Some \<lparr> err_index = j, err_request = r,
                                                          err_message = msg \<rparr>
                                     | Inr t \<Rightarrow> None)
                          (zip [0..<?n] batch) \<rparr>"
      by (rule result)
    show "snd (snd ret) = cs ! ?n" by (rule state)
    show "queue (fst (snd ret)) = drop (nat (batch_size_of bs s)) (queue s)" by (rule run(2))
    show "\<not> processing (fst (snd ret))" by (rule run(3))
  next
    assume a: "s = enqueue_all new_BatchProcessor reqs \<and> length reqs = 12 \<and> bs = Some 10
            \<and> k < 10 \<and> g k = Inl reason \<and> (\<forall>j < 10. j \<noteq> k \<longrightarrow> (\<exists>t. g j = Inr t))"
    show "\<exists>r. fst ret = BatchResults r \<and> length (tokens r) = 9 \<and> length (errors r) = 1
                   \<and> errors r = [\<lparr> err_index = k, err_request = queued_of (reqs ! k),
                                    err_message = reason \<rparr>]"
      by (rule conjunct1 [OF scenario [OF a]])
    show "length (queue (fst (snd ret))) = 2"
      by (rule conjunct2 [OF scenario [OF a]])
  qed
qed

lemma twelve_queue:
  "queue (enqueue_all new_BatchProcessor twelve_requests) = map queued_of twelve_requests"
  using enqueue_all_facts [of new_BatchProcessor twelve_requests]
  by (simp add: new_BatchProcessor_def)

lemma twelve_size: "batch_size_of (Some 10) (enqueue_all new_BatchProcessor twelve_requests) = 10"
proof -
  have "length twelve_requests = 12" by (simp add: twelve_requests_def)
  then show ?thesis by (simp add: batch_size_of_def twelve_queue)
qed

lemma ten_batch:
  "take (nat (batch_size_of (Some 10) (enqueue_all new_BatchProcessor twelve_requests)))
        (queue (enqueue_all new_BatchProcessor twelve_requests))
     = [queued_of (0, alc_request), queued_of (1, alc_request), queued_of (2, alc_request),
        queued_of (3, art_request), queued_of (4, alc_request), queued_of (5, alc_request),
        queued_of (6, alc_request), queued_of (7, alc_request), queued_of (8, alc_request),
        queued_of (9, alc_request)]"
  unfolding twelve_size twelve_queue by (simp add: twelve_requests_def)

lemma ten_items:
  "\<forall>j < length [queued_of (0, alc_request), queued_of (1, alc_request),
                 queued_of (2, alc_request), queued_of (3, art_request),
                 queued_of (4, alc_request), queued_of (5, alc_request),
                 queued_of (6, alc_request), queued_of (7, alc_request),
                 queued_of (8, alc_request), queued_of (9, alc_request)].
     if req_type (q_request
          ([queued_of (0, alc_request), queued_of (1, alc_request),
            queued_of (2, alc_request), queued_of (3, art_request),
            queued_of (4, alc_request), queued_of (5, alc_request),
            queued_of (6, alc_request), queued_of (7, alc_request),
            queued_of (8, alc_request), queued_of (9, alc_request)] ! j))
        \<in> {Some ''ALC'', None, Some []}
     then (case (if j = 3 then Inl ''Token validation failed'' else Inr demo_token) of
             Inr t \<Rightarrow>
               minting (replicate 11 () ! j)
                 ([queued_of (0, alc_request), queued_of (1, alc_request),
                   queued_of (2, alc_request), queued_of (3, art_request),
                   queued_of (4, alc_request), queued_of (5, alc_request),
                   queued_of (6, alc_request), queued_of (7, alc_request),
                   queued_of (8, alc_request), queued_of (9, alc_request)] ! j)
               = (MintSuccess t, replicate 11 () ! Suc j)
           | Inl msg \<Rightarrow>
               minting (replicate 11 () ! j)
                 ([queued_of (0, alc_request), queued_of (1, alc_request),
                   queued_of (2, alc_request), queued_of (3, art_request),
                   queued_of (4, alc_request), queued_of (5, alc_request),
                   queued_of (6, alc_request), queued_of (7, alc_request),
                   queued_of (8, alc_request), queued_of (9, alc_request)] ! j)
               = (MintFailure msg, replicate 11 () ! Suc j)
               \<or> minting (replicate 11 () ! j)
                 ([queued_of (0, alc_request), queued_of (1, alc_request),
                   queued_of (2, alc_request), queued_of (3, art_request),
                   queued_of (4, alc_request), queued_of (5, alc_request),
                   queued_of (6, alc_request), queued_of (7, alc_request),
                   queued_of (8, alc_request), queued_of (9, alc_request)] ! j)
               = (MintThrew msg, replicate 11 () ! Suc j))
     else rejecting (replicate 11 () ! j)
            ([queued_of (0, alc_request), queued_of (1, alc_request),
              queued_of (2, alc_request), queued_of (3, art_request),
              queued_of (4, alc_request), queued_of (5, alc_request),
              queued_of (6, alc_request), queued_of (7, alc_request),
              queued_of (8, alc_request), queued_of (9, alc_request)] ! j)
          = (if j = 3 then Inl ''Token validation failed'' else Inr demo_token,
             replicate 11 () ! Suc j)"
  by (simp add: All_less_Suc minting_def rejecting_def queued_of_def alc_request_def
                art_request_def)

lemma upt_0_10: "[0..<10] = [0, 1, 2, 3, 4, 5, 6, 7, 8, 9::nat]"
  by (simp add: upt_rec)

theorem C7_processBatch_witness:
  "fst (processBatch minting rejecting ''BATCH_1'' 50 (Some 10)
          (enqueue_all new_BatchProcessor twelve_requests, ()))
     = BatchResults
         \<lparr> batch_id = ''BATCH_1'', res_timestamp = 50, res_size = 10,
           tokens = [demo_token, demo_token, demo_token, demo_token, demo_token,
                     demo_token, demo_token, demo_token, demo_token],
           errors = [\<lparr> err_index = 3, err_request = queued_of (3, art_request),
                       err_message = ''Token validation failed'' \<rparr>] \<rparr>
   \<and> length (queue (fst (snd (processBatch minting rejecting ''BATCH_1'' 50 (Some 10)
          (enqueue_all new_BatchProcessor twelve_requests, ()))))) = 2"
proof -
  let ?s = "enqueue_all new_BatchProcessor twelve_requests"
  let ?g = "\<lambda>j::nat. if j = 3 then Inl ''Token validation failed'' else Inr demo_token"
  have idle: "\<not> processing ?s"
    using enqueue_all_facts [of new_BatchProcessor twelve_requests]
    by (simp add: new_BatchProcessor_def)
  have size: "batch_size_of (Some 10) ?s \<noteq> 0" by (simp add: twelve_size)
  have states: "length (replicate 11 ())
                  = Suc (length [queued_of (0, alc_request), queued_of (1, alc_request),
                                 queued_of (2, alc_request), queued_of (3, art_request),
                                 queued_of (4, alc_request), queued_of (5, alc_request),
                                 queued_of (6, alc_request), queued_of (7, alc_request),
                                 queued_of (8, alc_request), queued_of (9, alc_request)])"
    by simp
  have start: "processBatch minting rejecting ''BATCH_1'' 50 (Some 10) (?s, ())
                 = processBatch minting rejecting ''BATCH_1'' 50 (Some 10)
                     (?s, replicate 11 () ! 0)"
    by simp
  note inst = C7_processBatch [OF idle size ten_batch [symmetric] states ten_items start,
                               of twelve_requests 3 "''Token validation failed''"]
  have scen: "?s = enqueue_all new_BatchProcessor twelve_requests \<and> length twelve_requests = 12
      \<and> Some (10::int) = Some 10 \<and> (3::nat) < 10 \<and> ?g 3 = Inl ''Token validation failed''
      \<and> (\<forall>j < 10. j \<noteq> 3 \<longrightarrow> (\<exists>t. ?g j = Inr t))"
    by (simp add: twelve_requests_def)
  have first: "fst (processBatch minting rejecting ''BATCH_1'' 50 (Some 10) (?s, ()))
     = BatchResults
         \<lparr> batch_id = ''BATCH_1'', res_timestamp = 50, res_size = 10,
           tokens = [demo_token, demo_token, demo_token, demo_token, demo_token,
                     demo_token, demo_token, demo_token, demo_token],
           errors = [\<lparr> err_index = 3, err_request = queued_of (3, art_request),
                       err_message = ''Token validation failed'' \<rparr>] \<rparr>"
    using conjunct1 [OF inst]
    by (simp add: twelve_size upt_0_10 map_filter_simps)
  have second: "length (queue (fst (snd (processBatch minting rejecting ''BATCH_1'' 50 (Some 10)
          (?s, ()))))) = 2"
    using conjunct2 [OF conjunct2 [OF conjunct2 [OF conjunct2 [OF inst]]]] scen by blast
  from first second show ?thesis by (rule conjI)
qed

end
